theory Spec2Isabelle
  imports Complex_Main "HOL-Library.Product_Lexorder" "HOL-Library.Multiset"
begin

section \<open>Layout elements\<close>

text \<open>
  A layout element is a Python dict decoded from the layout JSON. The keys the code reads
  or writes are \<open>category\<close>, \<open>bbox\<close>, \<open>text\<close>, \<open>reading_order\<close> and \<open>page_number\<close>; a key
  that is absent from the dict is \<open>None\<close>. Coordinates are pixel integers.
\<close>

record element =
  category :: "string option"
  bbox :: "int list option"
  etext :: "string option"
  reading_order :: "int option"
  page_number :: "int option"

section \<open>Reading order: \<open>AdvancedParser.analyze_reading_order\<close>\<close>

text \<open>
  The inner function \<open>sort_key\<close> of the source: \<open>item.get('bbox', [0, 0, 0, 0])\<close>, then
  \<open>(y1, x1)\<close> when the list has at least four entries and \<open>(0, 0)\<close> otherwise.
\<close>

definition sort_key_item :: "element \<Rightarrow> int \<times> int" where
  "sort_key_item item =
     (let b = (case bbox item of None \<Rightarrow> [0, 0, 0, 0] | Some b \<Rightarrow> b)
      in if length b \<ge> 4 then (b ! 1, b ! 0) else (0, 0))"

text \<open>
  The dicts are objects shared between the caller's list and the returned list, so the
  model keeps them in a store: a list of elements is a list of addresses, and the store
  maps an address to the dict that lives there.
\<close>

type_synonym addr = nat
type_synonym store = "addr \<Rightarrow> element"

text \<open>One iteration of \<open>for i, item in enumerate(sorted_data): item['reading_order'] = i + 1\<close>.\<close>

definition set_reading_order :: "nat \<times> addr \<Rightarrow> store \<Rightarrow> store" where
  "set_reading_order p h =
     h(snd p := (h (snd p))\<lparr>reading_order := Some (int (fst p) + 1)\<rparr>)"

text \<open>
  \<open>sorted(layout_data, key=sort_key)\<close> is Python's stable sort; \<open>List.sort_key\<close> is the
  stable insertion sort of the library, and pairs are compared lexicographically.
  The function returns the sorted list and leaves the store updated.
\<close>

definition analyze_reading_order :: "store \<Rightarrow> addr list \<Rightarrow> addr list \<times> store" where
  "analyze_reading_order h layout_data =
     (let sorted_data = sort_key (\<lambda>a. sort_key_item (h a)) layout_data
      in (sorted_data, fold set_reading_order (enumerate 0 sorted_data) h))"

text \<open>
  A page of three detected elements, used to run the functions on concrete data: the dict
  at address 0 is a text block below the title at address 2, and the dict at address 1
  carries a bbox of two entries only.
\<close>

definition page0 :: store where
  "page0 a =
     \<lparr>category = (if a = 2 then Some ''Title'' else Some ''Text''),
      bbox = (if a = 0 then Some [10, 50, 200, 100]
              else if a = 1 then Some [5, 5]
              else Some [10, 10, 200, 40]),
      etext = None, reading_order = None, page_number = None\<rparr>"

section \<open>Category buckets: \<open>AdvancedParser.extract_structured_content\<close>\<close>

text \<open>The eleven keys of the dict \<open>structured_content\<close>, each bound to an empty list.\<close>

definition fixed_categories :: "string list" where
  "fixed_categories =
     [''Title'', ''Text'', ''Table'', ''Formula'', ''List-item'', ''Caption'',
      ''Section-header'', ''Picture'', ''Footnote'', ''Page-header'', ''Page-footer'']"

definition empty_structured_content :: "string \<rightharpoonup> element list" where
  "empty_structured_content = map_of (map (\<lambda>c. (c, [])) fixed_categories)"

text \<open>\<open>item.get('category', 'Unknown')\<close>.\<close>

definition category_or_unknown :: "element \<Rightarrow> string" where
  "category_or_unknown item = (case category item of None \<Rightarrow> ''Unknown'' | Some c \<Rightarrow> c)"

text \<open>
  The loop body: \<open>if category in structured_content: structured_content[category].append(item)\<close>.
\<close>

definition classify_item ::
  "element \<Rightarrow> (string \<rightharpoonup> element list) \<Rightarrow> (string \<rightharpoonup> element list)" where
  "classify_item item structured_content =
     (let c = category_or_unknown item
      in case structured_content c of
           None \<Rightarrow> structured_content
         | Some items \<Rightarrow> structured_content(c \<mapsto> items @ [item]))"

text \<open>
  The argument is the decoded layout of the parsed image, or \<open>None\<close> when the parser returned
  no result or the result has no \<open>layout_info_path\<close>; then the buckets stay empty.
\<close>

definition extract_structured_content ::
  "element list option \<Rightarrow> (string \<rightharpoonup> element list)" where
  "extract_structured_content layout =
     (case layout of
        None \<Rightarrow> empty_structured_content
      | Some layout_data \<Rightarrow> fold classify_item layout_data empty_structured_content)"

section \<open>Per-page results of the parser\<close>

text \<open>
  A page result names its output files by path. What a path leads to is part of the input:
  the key may be absent from the result (\<open>NoKey\<close>), the file may not exist (\<open>Missing\<close>),
  opening or decoding it may raise (\<open>Corrupt\<close>), or it holds a value (\<open>Holds\<close>).
\<close>

datatype 'a path_ref = NoKey | Missing | Corrupt | Holds 'a

text \<open>
  A decoded layout file. A page that parsed holds a list of dicts; a filtered page holds
  the raw response string. An entry of a list that is not a dict is \<open>NonDict\<close>; \<open>JObject\<close>
  carries the keys of a JSON object, \<open>JScalar\<close> is a number, a boolean or null.
\<close>

datatype json_item = Dict element | NonDict

datatype json = JList "json_item list" | JString string | JObject "string list" | JScalar

record page_result =
  page_no :: "int option"
  layout_info_path :: "json path_ref"
  md_content_path :: "string path_ref"
  layout_image_path :: "unit path_ref"
  input_width :: "int option"
  input_height :: "int option"
  filtered :: "bool option"

datatype exn = TypeError | OSError | AttributeError

section \<open>Merging pages: \<open>PDFProcessor.merge_pdf_results\<close>\<close>

text \<open>\<open>result.get('page_no', 0)\<close>.\<close>

definition page_no_of :: "page_result \<Rightarrow> int" where
  "page_no_of result = (case page_no result of None \<Rightarrow> 0 | Some n \<Rightarrow> n)"

text \<open>
  \<open>for item in page_layout: item['page_number'] = page_no + 1\<close>. Item assignment raises
  \<open>TypeError\<close> on an entry that is not a dict. Iterating a string yields its characters and
  iterating a JSON object yields its keys, all strings, so the first one raises; a number,
  a boolean or null cannot be iterated at all.
\<close>

fun number_items :: "int \<Rightarrow> json_item list \<Rightarrow> exn + element list" where
  "number_items n [] = Inr []"
| "number_items n (Dict item # rest) =
     (case number_items n rest of
        Inl e \<Rightarrow> Inl e
      | Inr items \<Rightarrow> Inr (item\<lparr>page_number := Some n\<rparr> # items))"
| "number_items n (NonDict # rest) = Inl TypeError"

fun number_page :: "int \<Rightarrow> json \<Rightarrow> exn + element list" where
  "number_page n (JList page_layout) = number_items n page_layout"
| "number_page n (JString s) = (if s = [] then Inr [] else Inl TypeError)"
| "number_page n (JObject keys) = (if keys = [] then Inr [] else Inl TypeError)"
| "number_page n JScalar = Inl TypeError"

text \<open>The body of the first \<open>try\<close>: open and decode the file, number the items.\<close>

definition read_page_layout :: "page_result \<Rightarrow> exn + element list" where
  "read_page_layout result =
     (case layout_info_path result of
        Holds page_layout \<Rightarrow> number_page (page_no_of result + 1) page_layout
      | _ \<Rightarrow> Inl OSError)"

text \<open>
  The body of the second \<open>try\<close>: read the markdown file. The entry appended to
  \<open>all_text_content\<close> is kept as the page number and the page text it is formatted from.
\<close>

definition read_page_text :: "page_result \<Rightarrow> exn + (int \<times> string)" where
  "read_page_text result =
     (case md_content_path result of
        Holds page_text \<Rightarrow> Inr (page_no_of result + 1, page_text)
      | _ \<Rightarrow> Inl OSError)"

text \<open>
  One iteration of \<open>for result in results\<close>. Each \<open>try\<close> is entered only when the key is in
  the result, and its \<open>except Exception\<close> prints a warning and goes on.
\<close>

definition merge_step ::
  "page_result \<Rightarrow> element list \<times> (int \<times> string) list \<Rightarrow> element list \<times> (int \<times> string) list"
  where
  "merge_step result acc =
     (let all_layout_data = fst acc; all_text_content = snd acc;
          all_layout_data' =
            (if layout_info_path result = NoKey then all_layout_data
             else case read_page_layout result of
                    Inl e \<Rightarrow> all_layout_data
                  | Inr page_layout \<Rightarrow> all_layout_data @ page_layout);
          all_text_content' =
            (if md_content_path result = NoKey then all_text_content
             else case read_page_text result of
                    Inl e \<Rightarrow> all_text_content
                  | Inr entry \<Rightarrow> all_text_content @ [entry])
      in (all_layout_data', all_text_content'))"

record page_info =
  info_page_number :: int
  info_input_width :: int
  info_input_height :: int
  has_layout :: bool
  has_text :: bool

definition page_info_of :: "page_result \<Rightarrow> page_info" where
  "page_info_of result =
     \<lparr>info_page_number = page_no_of result + 1,
      info_input_width = (case input_width result of None \<Rightarrow> 0 | Some w \<Rightarrow> w),
      info_input_height = (case input_height result of None \<Rightarrow> 0 | Some h \<Rightarrow> h),
      has_layout = (layout_info_path result \<noteq> NoKey),
      has_text = (md_content_path result \<noteq> NoKey)\<rparr>"

text \<open>\<open>category_stats[category] = category_stats.get(category, 0) + 1\<close>.\<close>

definition count_category :: "element \<Rightarrow> (string \<rightharpoonup> nat) \<Rightarrow> (string \<rightharpoonup> nat)" where
  "count_category item category_stats =
     (let c = category_or_unknown item
      in category_stats(c \<mapsto> (case category_stats c of None \<Rightarrow> 0 | Some k \<Rightarrow> k) + 1))"

text \<open>
  The aggregate the function builds: \<open>merged_info\<close> (without the text length, which
  depends on the formatted page headers), and the two lists it hands to the writer. The
  empty dict returned for an empty \<open>results\<close> is \<open>None\<close>. Writing the three output files,
  which follows in the source, is the writer's part and is not modelled.
\<close>

record merged =
  total_pages :: nat
  total_layout_elements :: nat
  pages_info :: "page_info list"
  category_statistics :: "string \<rightharpoonup> nat"
  all_layout_data :: "element list"
  all_text_content :: "(int \<times> string) list"

definition merge_pdf_results :: "page_result list \<Rightarrow> merged option" where
  "merge_pdf_results results =
     (if results = [] then None
      else
        let acc = fold merge_step results ([], [])
        in Some \<lparr>total_pages = length results,
                 total_layout_elements = length (fst acc),
                 pages_info = map page_info_of results,
                 category_statistics = fold count_category (fst acc) Map.empty,
                 all_layout_data = fst acc,
                 all_text_content = snd acc\<rparr>)"

section \<open>Reading back a parsed PDF: \<open>EnhancedPDFProcessor.parse_pdf_with_api\<close>\<close>

text \<open>
  The dict \<open>page_result\<close> built for each page, without its \<open>file_path\<close>, which is the path
  of the PDF on every page.
\<close>

record api_page =
  api_page_no :: int
  layout_image :: "unit option"
  cells_data :: "json option"
  md_content :: "string option"
  api_filtered :: bool

text \<open>
  A path is followed only when the key is present and \<open>os.path.exists\<close> holds; opening or
  decoding a file that exists may still raise, and nothing inside the loop catches it.
\<close>

definition read_existing :: "'a path_ref \<Rightarrow> exn + 'a option" where
  "read_existing p =
     (case p of NoKey \<Rightarrow> Inr None | Missing \<Rightarrow> Inr None
      | Corrupt \<Rightarrow> Inl OSError | Holds v \<Rightarrow> Inr (Some v))"

text \<open>\<open>result.get('filtered', False)\<close>.\<close>

definition is_filtered :: "page_result \<Rightarrow> bool" where
  "is_filtered result = (case filtered result of None \<Rightarrow> False | Some b \<Rightarrow> b)"

text \<open>
  What a page adds to \<open>all_cells_data\<close> once its layout file has been decoded: nothing when
  the page is filtered, the entries when the value is a list, nothing otherwise.
\<close>

definition cells_of_page :: "page_result \<Rightarrow> json option \<Rightarrow> json_item list" where
  "cells_of_page result json_data =
     (case json_data of
        None \<Rightarrow> []
      | Some j \<Rightarrow>
          if is_filtered result then []
          else (case j of JList items \<Rightarrow> items | _ \<Rightarrow> []))"

text \<open>
  One iteration of \<open>for i, result in enumerate(results)\<close>: the page dict, and what the page
  adds to \<open>all_cells_data\<close> and to \<open>all_md_content\<close>.
\<close>

definition read_page ::
  "nat \<Rightarrow> page_result \<Rightarrow> exn + (api_page \<times> json_item list \<times> string list)" where
  "read_page i result =
     (case read_existing (layout_image_path result) of
        Inl e \<Rightarrow> Inl e
      | Inr img \<Rightarrow>
     (case read_existing (layout_info_path result) of
        Inl e \<Rightarrow> Inl e
      | Inr json_data \<Rightarrow>
     (case read_existing (md_content_path result) of
        Inl e \<Rightarrow> Inl e
      | Inr page_content \<Rightarrow>
          Inr (\<lparr>api_page_no = (case page_no result of None \<Rightarrow> int i | Some n \<Rightarrow> n),
                layout_image = img,
                cells_data = json_data,
                md_content = page_content,
                api_filtered = is_filtered result\<rparr>,
               cells_of_page result json_data,
               (case page_content of None \<Rightarrow> [] | Some c \<Rightarrow> [c])))))"

fun read_pages ::
  "nat \<Rightarrow> page_result list \<Rightarrow> exn + (api_page list \<times> json_item list \<times> string list)" where
  "read_pages i [] = Inr ([], [], [])"
| "read_pages i (result # rest) =
     (case read_page i result of
        Inl e \<Rightarrow> Inl e
      | Inr (page, cells, md) \<Rightarrow>
          (case read_pages (Suc i) rest of
             Inl e \<Rightarrow> Inl e
           | Inr (pages, all_cells, all_md) \<Rightarrow> Inr (page # pages, cells @ all_cells, md @ all_md)))"

text \<open>\<open>sep.join(parts)\<close>.\<close>

fun join :: "string \<Rightarrow> string list \<Rightarrow> string" where
  "join sep [] = []"
| "join sep [s] = s"
| "join sep (s # t # rest) = s @ sep @ join sep (t # rest)"

datatype api_error = PdfNotFound | NoResults | Raised exn

record api_result =
  parsed_results :: "api_page list"
  combined_md_content :: string
  combined_cells_data :: "json_item list"
  api_total_pages :: nat

text \<open>
  The arguments are whether the PDF exists and what \<open>self.parser.parse_pdf\<close> gave: \<open>None\<close>
  when it raised, else its list of page results. The outer \<open>except Exception\<close> turns every
  exception into the failure dict.
\<close>

definition parse_pdf_with_api :: "bool \<Rightarrow> page_result list option \<Rightarrow> api_error + api_result" where
  "parse_pdf_with_api pdf_exists parsed =
     (if \<not> pdf_exists then Inl PdfNotFound
      else case parsed of
        None \<Rightarrow> Inl (Raised OSError)
      | Some results \<Rightarrow>
          if results = [] then Inl NoResults
          else (case read_pages 0 results of
                  Inl e \<Rightarrow> Inl (Raised e)
                | Inr (pages, all_cells_data, all_md_content) \<Rightarrow>
                    Inr \<lparr>parsed_results = pages,
                         combined_md_content =
                           join [CHR 0x0A, CHR 0x0A, CHR ''-'', CHR ''-'', CHR ''-'', CHR 0x0A, CHR 0x0A]
                             all_md_content,
                         combined_cells_data = all_cells_data,
                         api_total_pages = length results\<rparr>))"

section \<open>Reading order on decoded JSON\<close>

text \<open>
  The list handed to \<open>analyze_reading_order\<close> is whatever \<open>json.load\<close> gave, so an entry need
  not be a dict and a bbox need not be a list. An entry is a dict whose \<open>bbox\<close> key is
  absent or holds a list of integers (\<open>WellFormed\<close>), a dict whose \<open>bbox\<close> key holds a value
  without a length, that is null, a number or a boolean (\<open>UnsizedBbox\<close>, the record holding
  the other keys of the dict), or a value that is not a dict (\<open>NotDict\<close>). Other bbox values,
  a string or a list with entries that are not numbers, are not modelled.
\<close>

datatype layout_item = WellFormed element | UnsizedBbox element | NotDict


text \<open>
  The inner function \<open>sort_key\<close> with its exceptions: \<open>item.get\<close> raises \<open>AttributeError\<close> on
  an entry that is not a dict, and \<open>len(bbox)\<close> raises \<open>TypeError\<close> on a value without a
  length.
\<close>

fun item_sort_key :: "layout_item \<Rightarrow> exn + int \<times> int" where
  "item_sort_key (WellFormed item) = Inr (sort_key_item item)"
| "item_sort_key (UnsizedBbox item) = Inl TypeError"
| "item_sort_key NotDict = Inl AttributeError"

text \<open>
  \<open>sorted\<close> calls the key function on every entry, in list order, before it compares any
  two of them; the first exception ends the call.
\<close>

fun item_sort_keys :: "layout_item list \<Rightarrow> exn + (int \<times> int) list" where
  "item_sort_keys [] = Inr []"
| "item_sort_keys (item # rest) =
     (case item_sort_key item of
        Inl e \<Rightarrow> Inl e
      | Inr k \<Rightarrow> (case item_sort_keys rest of Inl e \<Rightarrow> Inl e | Inr ks \<Rightarrow> Inr (k # ks)))"



section \<open>Coordinate normalization of the layout post-processor\<close>

text \<open>
  Modelled from the spec: the clipping of one coordinate to \<open>[lo, hi]\<close>. The coordinate
  normalization of the layout post-processor belongs to the package \<open>dots_ocr\<close>, which the
  examples import and which is not among the sources.
\<close>

definition clip :: "int \<Rightarrow> int \<Rightarrow> int \<Rightarrow> int" where
  "clip lo hi v = max lo (min hi v)"

text \<open>
  Modelled from the spec: "clip every bbox to \<open>[0,width]\<times>[0,height]\<close> of the page's scaled
  image" (section 4.4); the function itself is not among the sources. A bbox that does not
  have four entries is no box and yields \<open>None\<close>.
\<close>

fun clip_bbox :: "int \<Rightarrow> int \<Rightarrow> int list \<Rightarrow> int list option" where
  "clip_bbox width height [x1, y1, x2, y2] =
     Some [clip 0 width x1, clip 0 height y1, clip 0 width x2, clip 0 height y2]"
| "clip_bbox width height b = None"

text \<open>
  Modelled from the spec: the area of a box, for "drop zero-area results" (section 4.4);
  not among the sources. The box \<open>[x1, y1, x2, y2]\<close> is the rectangle of the points with
  \<open>x1 \<le> x \<le> x2\<close> and \<open>y1 \<le> y \<le> y2\<close>, so a box with an inverted side is empty and its
  extent along that side counts as 0.
\<close>

fun bbox_area :: "int list \<Rightarrow> int" where
  "bbox_area [x1, y1, x2, y2] = max 0 (x2 - x1) * max 0 (y2 - y1)"
| "bbox_area b = 0"

text \<open>
  Modelled from the spec: coordinate normalization of one element (section 4.4), not among
  the sources: the bbox is clipped, and the element is dropped (\<open>None\<close>) when the clipped
  box has zero area or the element carries no four-entry bbox.
\<close>

definition normalize_element :: "int \<Rightarrow> int \<Rightarrow> element \<Rightarrow> element option" where
  "normalize_element width height e =
     (case bbox e of
        None \<Rightarrow> None
      | Some b \<Rightarrow>
          (case clip_bbox width height b of
             None \<Rightarrow> None
           | Some b' \<Rightarrow> if bbox_area b' = 0 then None else Some (e\<lparr>bbox := Some b'\<rparr>)))"

text \<open>
  Modelled from the spec: coordinate normalization of a page's element list (section 4.4),
  not among the sources. The elements that remain keep their order.
\<close>

definition normalize_coordinates :: "int \<Rightarrow> int \<Rightarrow> element list \<Rightarrow> element list" where
  "normalize_coordinates width height elements =
     List.map_filter (normalize_element width height) elements"

text \<open>
  Modelled from the spec: the invariant of the data model (section 3),
  \<open>0 \<le> x1 < x2 \<le> width\<close> and \<open>0 \<le> y1 < y2 \<le> height\<close>, as a test on an element.
\<close>

definition within_page :: "int \<Rightarrow> int \<Rightarrow> element \<Rightarrow> bool" where
  "within_page width height e =
     (case bbox e of
        Some [x1, y1, x2, y2] \<Rightarrow>
          0 \<le> x1 \<and> x1 < x2 \<and> x2 \<le> width \<and> 0 \<le> y1 \<and> y1 < y2 \<and> y2 \<le> height
      | _ \<Rightarrow> False)"

section \<open>Mapping between original and scaled coordinates\<close>

text \<open>
  Modelled from the spec: mapping an original-space bbox into the scaled space "using the
  page's recorded scale factor" (section 4.4); the mapping is not among the sources. Boxes
  hold whole pixels, so each scaled coordinate is rounded; the rounding function is a
  parameter.
\<close>

definition to_scaled :: "(real \<Rightarrow> int) \<Rightarrow> real \<Rightarrow> int list \<Rightarrow> int list" where
  "to_scaled rnd scale b = map (\<lambda>v. rnd (real_of_int v * scale)) b"

text \<open>
  Modelled from the spec: mapping a bbox of the scaled space "back to original-image space"
  (section 4.4), the inverse scaling with the same scale factor; not among the sources.
\<close>

definition to_original :: "(real \<Rightarrow> int) \<Rightarrow> real \<Rightarrow> int list \<Rightarrow> int list" where
  "to_original rnd scale b = map (\<lambda>v. rnd (real_of_int v / scale)) b"

section \<open>Resolution planning\<close>





section \<open>Parsing a backend response\<close>

text \<open>
  Modelled from the spec: one entry of a decoded bbox list, a number or anything else. The
  result parser and the records it decodes are not among the sources.
\<close>

datatype jvalue = Num int | NotNum

text \<open>
  Modelled from the spec: a record as the strict decode yields it, before validation
  (section 4.3); a key the record lacks is \<open>None\<close>. Not among the sources.
\<close>

record raw_record =
  raw_category :: "string option"
  raw_bbox :: "jvalue list option"
  raw_text :: "string option"

text \<open>
  Modelled from the spec: the reason codes of a filtered page, from the error taxonomy of
  section 7. Not among the sources.
\<close>

datatype reason = MalformedResponse | BackendTimeout | BackendUnavailable

text \<open>
  Modelled from the spec: the PageResult of section 3, not among the sources: "for
  Succeeded, an ordered sequence of Elements; for Filtered, the raw unparsed backend text
  and a reason code".
\<close>

datatype page_status = Succeeded "element list" | Filtered string reason

text \<open>Modelled from the spec: reading a bbox entry as a number; not among the sources.\<close>

fun number_of :: "jvalue \<Rightarrow> int option" where
  "number_of (Num n) = Some n"
| "number_of NotNum = None"

text \<open>
  Modelled from the spec: the validation of one decoded record (section 4.3), not among
  the sources: "each successfully decoded record must carry a category drawn from the fixed
  set and a 4-length numeric bbox; records missing either are dropped individually".
  \<open>None\<close> is a dropped record.
\<close>

definition validate_record :: "raw_record \<Rightarrow> element option" where
  "validate_record r =
     (case raw_category r of
        None \<Rightarrow> None
      | Some c \<Rightarrow>
          if c \<notin> set fixed_categories then None
          else (case raw_bbox r of
                  None \<Rightarrow> None
                | Some b \<Rightarrow>
                    if length b \<noteq> 4 then None
                    else (case those (map number_of b) of
                            None \<Rightarrow> None
                          | Some coords \<Rightarrow>
                              Some \<lparr>category = Some c, bbox = Some coords,
                                    etext = raw_text r, reading_order = None,
                                    page_number = None\<rparr>)))"

text \<open>
  Modelled from the spec: the result parser (section 4.3), not among the sources. The
  strict structured decode and the repair pass that strips wrapping artifacts are
  parameters: \<open>decode\<close> gives the records of a text, or \<open>None\<close> when the text does not decode.
  The attempts are "(1) strict structured decode of the full text; (2) on failure, a repair
  pass and a retry of the strict decode; (3) on repeated failure, the page is marked
  Filtered, retaining the original raw text verbatim".
\<close>

definition result_parser ::
  "(string \<Rightarrow> raw_record list option) \<Rightarrow> (string \<Rightarrow> string) \<Rightarrow> string \<Rightarrow> page_status" where
  "result_parser decode repair raw =
     (case decode raw of
        Some records \<Rightarrow> Succeeded (List.map_filter validate_record records)
      | None \<Rightarrow>
          (case decode (repair raw) of
             Some records \<Rightarrow> Succeeded (List.map_filter validate_record records)
           | None \<Rightarrow> Filtered raw MalformedResponse))"

section \<open>Dispatching the pages of a document\<close>

text \<open>
  Modelled from the spec: what one call to the inference backend gives (sections 4.2 and
  6): raw text, a timeout, or a transient network error. The dispatcher and the backend
  client are not among the sources.
\<close>

datatype response = Reply string | TimedOut | Unavailable

text \<open>
  Modelled from the spec: the retry policy of one page's task (section 4.2), not among the
  sources: "on timeout or transient network error, the task is retried up to a fixed retry
  budget". \<open>call k\<close> is the outcome of attempt \<open>k\<close>; the result is the first reply, or the
  failure of the last attempt when the budget is exhausted.
\<close>

fun call_with_retries :: "(nat \<Rightarrow> response) \<Rightarrow> nat \<Rightarrow> nat \<Rightarrow> response" where
  "call_with_retries call k 0 = call k"
| "call_with_retries call k (Suc budget) =
     (case call k of
        Reply t \<Rightarrow> Reply t
      | _ \<Rightarrow> call_with_retries call (Suc k) budget)"

text \<open>
  Modelled from the spec: the task of one page (sections 4.2 and 4.3), not among the
  sources: the call with its retries, then the result parser on the reply; "after budget
  exhaustion the page is marked Filtered with the failure captured as raw text/diagnostic".
  The backend is a function of the page index, the page and the attempt number, so each
  page has its own retry counter; \<open>parse\<close> is the result parser.
\<close>

definition dispatch_page ::
  "(nat \<Rightarrow> 'page \<Rightarrow> nat \<Rightarrow> response) \<Rightarrow> (string \<Rightarrow> page_status) \<Rightarrow> nat \<Rightarrow>
     nat \<Rightarrow> 'page \<Rightarrow> page_status" where
  "dispatch_page backend parse retries i page =
     (case call_with_retries (backend i page) 0 retries of
        Reply t \<Rightarrow> parse t
      | TimedOut \<Rightarrow> Filtered ''timeout'' BackendTimeout
      | Unavailable \<Rightarrow> Filtered ''unavailable'' BackendUnavailable)"

text \<open>
  Modelled from the spec: a worker finishing the task of page \<open>i\<close> (sections 4.2 and 5), not
  among the sources: "results are written back by page index, not by completion order",
  into "pre-allocated indexed slots".
\<close>

definition write_slot ::
  "(nat \<Rightarrow> 'page \<Rightarrow> page_status) \<Rightarrow> 'page list \<Rightarrow> nat \<Rightarrow>
     page_status option list \<Rightarrow> page_status option list" where
  "write_slot task pages i slots =
     (if i < length pages then slots[i := Some (task i (pages ! i))] else slots)"

text \<open>
  Modelled from the spec: the dispatcher (sections 4.2 and 5), not among the sources. One
  empty slot per page is allocated; the tasks finish in the order \<open>completion\<close>, a list of
  page indices that stands for the scheduling of the worker pool; the document result is
  read off the slots once every one is filled, and is \<open>None\<close> while a slot is empty.
\<close>

definition dispatch ::
  "(nat \<Rightarrow> 'page \<Rightarrow> nat \<Rightarrow> response) \<Rightarrow> (string \<Rightarrow> page_status) \<Rightarrow> nat \<Rightarrow>
     nat list \<Rightarrow> 'page list \<Rightarrow> page_status list option" where
  "dispatch backend parse retries completion pages =
     those (fold (write_slot (dispatch_page backend parse retries) pages) completion
              (replicate (length pages) None))"

text \<open>Modelled from the spec: the two statuses of a PageResult, as tests.\<close>

fun is_succeeded :: "page_status \<Rightarrow> bool" where
  "is_succeeded (Succeeded es) = True"
| "is_succeeded (Filtered t r) = False"

section \<open>Example documents\<close>

text \<open>
  Two pages as the parser reports them. In \<open>doc0\<close> the first page parsed into two elements
  and the second is filtered: its layout file holds the raw response. In \<open>doc1\<close> the second
  page is flagged as filtered although its layout file holds a list.
\<close>

definition doc0 :: "page_result list" where
  "doc0 =
     [\<lparr>page_no = Some 0,
       layout_info_path = Holds (JList [Dict (page0 2), Dict (page0 0)]),
       md_content_path = Holds ''Report'', layout_image_path = Missing,
       input_width = Some 800, input_height = Some 600, filtered = None\<rparr>,
      \<lparr>page_no = Some 1,
       layout_info_path = Holds (JString ''timeout''),
       md_content_path = NoKey, layout_image_path = NoKey,
       input_width = Some 800, input_height = Some 600, filtered = Some True\<rparr>]"

definition doc1 :: "page_result list" where
  "doc1 =
     [\<lparr>page_no = Some 0,
       layout_info_path = Holds (JList [Dict (page0 2)]),
       md_content_path = Holds ''Report'', layout_image_path = Missing,
       input_width = Some 800, input_height = Some 600, filtered = Some False\<rparr>,
      \<lparr>page_no = Some 1,
       layout_info_path = Holds (JList [Dict (page0 0)]),
       md_content_path = NoKey, layout_image_path = NoKey,
       input_width = Some 800, input_height = Some 600, filtered = Some True\<rparr>]"

text \<open>
  A response of two records, the second with a bbox of two entries; a decoder that accepts
  the text \<open>json\<close> only and yields these records; a repair pass that strips a prefix of
  six characters; and a backend whose page 1 times out on every attempt while every other
  page fails once and then replies with the text of the page.
\<close>

definition example_records :: "raw_record list" where
  "example_records =
     [\<lparr>raw_category = Some ''Title'', raw_bbox = Some [Num 10, Num 10, Num 200, Num 40],
       raw_text = Some ''Report''\<rparr>,
      \<lparr>raw_category = Some ''Text'', raw_bbox = Some [Num 10, Num 50],
       raw_text = Some ''Body''\<rparr>]"

definition example_decode :: "string \<Rightarrow> raw_record list option" where
  "example_decode s = (if s = ''json'' then Some example_records else None)"

definition example_repair :: "string \<Rightarrow> string" where
  "example_repair s = drop 6 s"

definition example_backend :: "nat \<Rightarrow> string \<Rightarrow> nat \<Rightarrow> response" where
  "example_backend i page attempt =
     (if i = 1 then TimedOut else if attempt = 0 then Unavailable else Reply page)"



section \<open>Properties of the reading order\<close>

subsection \<open>Facts about the numbering loop\<close>

lemma sort_key_item_reading_order [simp]:
  "sort_key_item (e\<lparr>reading_order := r\<rparr>) = sort_key_item e"
  by (simp add: sort_key_item_def)

lemma set_reading_order_apply:
  "set_reading_order (i, x) h a =
     (if a = x then (h x)\<lparr>reading_order := Some (int i + 1)\<rparr> else h a)"
  by (simp add: set_reading_order_def)

lemma numbering_snoc:
  "fold set_reading_order (enumerate n (xs @ [x])) h =
     set_reading_order (n + length xs, x) (fold set_reading_order (enumerate n xs) h)"
  by (simp add: enumerate_append_eq)

lemma numbering_outside:
  "a \<notin> set xs \<Longrightarrow> fold set_reading_order (enumerate n xs) h a = h a"
proof (induction xs rule: rev_induct)
  case Nil
  show ?case by simp
next
  case (snoc x xs)
  then show ?case
    by (simp add: numbering_snoc set_reading_order_apply)
qed

lemma numbering_key [simp]:
  "sort_key_item (fold set_reading_order (enumerate n xs) h a) = sort_key_item (h a)"
proof (induction xs rule: rev_induct)
  case Nil
  show ?case by simp
next
  case (snoc x xs)
  then show ?case
    by (auto simp: numbering_snoc set_reading_order_apply)
qed

lemma numbering_last:
  "a \<in> set xs \<Longrightarrow>
     \<exists>i < length xs. xs ! i = a \<and> (\<forall>j < length xs. xs ! j = a \<longrightarrow> j \<le> i) \<and>
        fold set_reading_order (enumerate n xs) h a =
          (h a)\<lparr>reading_order := Some (int (n + i) + 1)\<rparr>"
proof (induction xs rule: rev_induct)
  case Nil
  then show ?case by simp
next
  case (snoc x xs)
  show ?case
  proof (cases "a = x")
    case True
    have "fold set_reading_order (enumerate n (xs @ [x])) h a =
            (fold set_reading_order (enumerate n xs) h a)
              \<lparr>reading_order := Some (int (n + length xs) + 1)\<rparr>"
      using True by (simp add: numbering_snoc set_reading_order_apply)
    also have "\<dots> = (h a)\<lparr>reading_order := Some (int (n + length xs) + 1)\<rparr>"
    proof (cases "a \<in> set xs")
      case True
      from snoc.IH [OF True] show ?thesis by auto
    next
      case False
      then show ?thesis by (simp add: numbering_outside)
    qed
    finally have eq: "fold set_reading_order (enumerate n (xs @ [x])) h a =
        (h a)\<lparr>reading_order := Some (int (n + length xs) + 1)\<rparr>" .
    show ?thesis
      by (rule exI [of _ "length xs"]) (use True eq in \<open>auto simp: nth_append\<close>)
  next
    case False
    with snoc.prems have mem: "a \<in> set xs" by simp
    from snoc.IH [OF mem] obtain i where i: "i < length xs" "xs ! i = a"
      "\<forall>j < length xs. xs ! j = a \<longrightarrow> j \<le> i"
      "fold set_reading_order (enumerate n xs) h a =
         (h a)\<lparr>reading_order := Some (int (n + i) + 1)\<rparr>"
      by blast
    have "fold set_reading_order (enumerate n (xs @ [x])) h a =
            fold set_reading_order (enumerate n xs) h a"
      using False by (simp add: numbering_snoc set_reading_order_apply)
    then have eq: "fold set_reading_order (enumerate n (xs @ [x])) h a =
        (h a)\<lparr>reading_order := Some (int (n + i) + 1)\<rparr>"
      using i(4) by simp
    have last: "\<forall>j < length (xs @ [x]). (xs @ [x]) ! j = a \<longrightarrow> j \<le> i"
      using i(3) False by (auto simp: nth_append less_Suc_eq)
    have "i < length (xs @ [x])" "(xs @ [x]) ! i = a"
      using i(1,2) by (simp_all add: nth_append)
    with last eq show ?thesis by blast
  qed
qed

lemma numbering_distinct:
  assumes "distinct xs" "i < length xs"
  shows "fold set_reading_order (enumerate n xs) h (xs ! i) =
           (h (xs ! i))\<lparr>reading_order := Some (int (n + i) + 1)\<rparr>"
proof -
  from assms(2) have "xs ! i \<in> set xs" by simp
  from numbering_last [OF this, of n h] obtain k where k: "k < length xs" "xs ! k = xs ! i"
    "fold set_reading_order (enumerate n xs) h (xs ! i) =
       (h (xs ! i))\<lparr>reading_order := Some (int (n + k) + 1)\<rparr>"
    by blast
  from assms k(1,2) have "k = i" by (simp add: nth_eq_iff_index_eq)
  with k(3) show ?thesis by simp
qed

lemma numbering_idem:
  "fold set_reading_order (enumerate n xs) (fold set_reading_order (enumerate n xs) h) =
     fold set_reading_order (enumerate n xs) h"
proof (rule ext)
  fix a
  let ?h' = "fold set_reading_order (enumerate n xs) h"
  show "fold set_reading_order (enumerate n xs) ?h' a = ?h' a"
  proof (cases "a \<in> set xs")
    case False
    then show ?thesis by (simp add: numbering_outside)
  next
    case True
    from numbering_last [OF True, of n h] obtain i where i: "i < length xs" "xs ! i = a"
      "\<forall>j < length xs. xs ! j = a \<longrightarrow> j \<le> i"
      "?h' a = (h a)\<lparr>reading_order := Some (int (n + i) + 1)\<rparr>"
      by blast
    from numbering_last [OF True, of n ?h'] obtain k where k: "k < length xs" "xs ! k = a"
      "\<forall>j < length xs. xs ! j = a \<longrightarrow> j \<le> k"
      "fold set_reading_order (enumerate n xs) ?h' a =
         (?h' a)\<lparr>reading_order := Some (int (n + k) + 1)\<rparr>"
      by blast
    from i(1,2) k(3) have "i \<le> k" by blast
    moreover from k(1,2) i(3) have "k \<le> i" by blast
    ultimately have "k = i" by simp
    with i(4) k(4) show ?thesis by simp
  qed
qed

subsection \<open>Facts about the returned list and the updated store\<close>

lemma analyze_reading_order_eq:
  "analyze_reading_order h layout_data =
     (sort_key (\<lambda>a. sort_key_item (h a)) layout_data,
      fold set_reading_order
        (enumerate 0 (sort_key (\<lambda>a. sort_key_item (h a)) layout_data)) h)"
  by (simp add: analyze_reading_order_def Let_def)

lemma analyze_keys_kept:
  assumes "analyze_reading_order h layout_data = (sorted_data, h')"
  shows "(\<lambda>a. sort_key_item (h' a)) = (\<lambda>a. sort_key_item (h a))"
  using assms by (auto simp: analyze_reading_order_eq)

lemma analyze_written:
  assumes "analyze_reading_order h layout_data = (sorted_data, h')"
    and "a \<in> set layout_data"
  shows "\<exists>i < length sorted_data. sorted_data ! i = a \<and>
           (\<forall>j < length sorted_data. sorted_data ! j = a \<longrightarrow> j \<le> i) \<and>
           h' a = (h a)\<lparr>reading_order := Some (int i + 1)\<rparr>"
proof -
  from assms(1) have sd: "sorted_data = sort_key (\<lambda>a. sort_key_item (h a)) layout_data"
    and h': "h' = fold set_reading_order (enumerate 0 sorted_data) h"
    by (auto simp: analyze_reading_order_eq)
  from assms(2) sd have "a \<in> set sorted_data" by simp
  from numbering_last [OF this, of 0 h] show ?thesis
    unfolding h' by simp
qed


lemma analyze_numbered:
  assumes "analyze_reading_order h layout_data = (sorted_data, h')"
    and "distinct layout_data" and "i < length sorted_data"
  shows "h' (sorted_data ! i) = (h (sorted_data ! i))\<lparr>reading_order := Some (int i + 1)\<rparr>"
proof -
  from assms(1) have sd: "sorted_data = sort_key (\<lambda>a. sort_key_item (h a)) layout_data"
    and h': "h' = fold set_reading_order (enumerate 0 sorted_data) h"
    by (auto simp: analyze_reading_order_eq)
  from assms(2) sd have "distinct sorted_data" by simp
  from numbering_distinct [OF this assms(3), of 0 h] show ?thesis
    unfolding h' by simp
qed

lemma analyze_sorted:
  assumes "analyze_reading_order h layout_data = (sorted_data, h')"
  shows "sorted (map (\<lambda>a. sort_key_item (h a)) sorted_data)"
  using assms by (auto simp: analyze_reading_order_eq)

lemma analyze_positions:
  assumes res: "analyze_reading_order h layout_data = (sorted_data, h')"
    and lt: "sort_key_item (h a) < sort_key_item (h c)"
    and i: "i < length sorted_data" "sorted_data ! i = a"
    and j: "j < length sorted_data" "sorted_data ! j = c"
  shows "i < j"
proof (rule ccontr)
  assume "\<not> i < j"
  then have "j \<le> i" by simp
  with analyze_sorted [OF res] i(1)
  have "map (\<lambda>a. sort_key_item (h a)) sorted_data ! j
          \<le> map (\<lambda>a. sort_key_item (h a)) sorted_data ! i"
    by (simp add: sorted_iff_nth_mono del: nth_map)
  with i j have "sort_key_item (h c) \<le> sort_key_item (h a)" by simp
  with lt show False by simp
qed

lemma analyze_order_lt:
  assumes res: "analyze_reading_order h layout_data = (sorted_data, h')"
    and a: "a \<in> set layout_data" and c: "c \<in> set layout_data"
    and lt: "sort_key_item (h a) < sort_key_item (h c)"
  shows "\<exists>m n. reading_order (h' a) = Some m \<and> reading_order (h' c) = Some n \<and> m < n"
proof -
  from analyze_written [OF res a] obtain i where i: "i < length sorted_data"
    "sorted_data ! i = a" "h' a = (h a)\<lparr>reading_order := Some (int i + 1)\<rparr>"
    by blast
  from analyze_written [OF res c] obtain j where j: "j < length sorted_data"
    "sorted_data ! j = c" "h' c = (h c)\<lparr>reading_order := Some (int j + 1)\<rparr>"
    by blast
  from analyze_positions [OF res lt i(1,2) j(1,2)] have "int i + 1 < int j + 1" by simp
  with i(3) j(3) show ?thesis by simp
qed

lemma analyze_again:
  assumes res: "analyze_reading_order h layout_data = (sorted_data, h')"
  shows "analyze_reading_order h' sorted_data = (sorted_data, h')"
    and "analyze_reading_order h' layout_data = (sorted_data, h')"
proof -
  note keys = analyze_keys_kept [OF res]
  from res have sd: "sorted_data = sort_key (\<lambda>a. sort_key_item (h a)) layout_data"
    and h': "h' = fold set_reading_order (enumerate 0 sorted_data) h"
    by (auto simp: analyze_reading_order_eq)
  have again: "fold set_reading_order (enumerate 0 sorted_data) h' = h'"
    unfolding h' by (rule numbering_idem)
  have "sort_key (\<lambda>a. sort_key_item (h a)) sorted_data = sorted_data"
    by (rule sort_key_id_if_sorted) (rule analyze_sorted [OF res])
  then show "analyze_reading_order h' sorted_data = (sorted_data, h')"
    by (simp add: analyze_reading_order_eq keys again)
  show "analyze_reading_order h' layout_data = (sorted_data, h')"
    by (simp add: analyze_reading_order_eq keys sd [symmetric] again)
qed

subsection \<open>Reading-order assignment\<close>

text \<open>
  Claim C2. \<open>analyze_reading_order\<close> returns the elements of a page sorted by \<open>(y1, x1)\<close>
  ascending (lexicographically: top coordinate first, then left coordinate), elements
  with equal keys keep their original relative order, and no element is lost or
  duplicated. Every element carries as \<open>reading_order\<close> one plus a position it has in the
  returned list, and when the elements of the page are distinct dicts the element at
  position \<open>i\<close> carries \<open>reading_order = i + 1\<close>. Running the function again, on the returned
  list or on the original list, returns the same list and leaves every \<open>reading_order\<close> as
  it is. For two elements \<open>a\<close>, \<open>c\<close> of the page with four-entry boxes and \<open>a.y1 < c.y1\<close>,
  the \<open>reading_order\<close> of \<open>a\<close> is smaller than that of \<open>c\<close>.
\<close>

theorem reading_order_assignment:
  assumes res: "analyze_reading_order h layout_data = (sorted_data, h')"
  shows "sorted (map (\<lambda>a. sort_key_item (h a)) sorted_data) \<and>
    (\<forall>i j ba bc. i \<le> j \<and> j < length sorted_data \<and>
        bbox (h (sorted_data ! i)) = Some ba \<and> bbox (h (sorted_data ! j)) = Some bc \<and>
        4 \<le> length ba \<and> 4 \<le> length bc \<longrightarrow>
        ba ! 1 < bc ! 1 \<or> (ba ! 1 = bc ! 1 \<and> ba ! 0 \<le> bc ! 0)) \<and>
    (\<forall>k. filter (\<lambda>a. sort_key_item (h a) = k) sorted_data =
         filter (\<lambda>a. sort_key_item (h a) = k) layout_data) \<and>
    mset sorted_data = mset layout_data \<and>
    (\<forall>a \<in> set layout_data. \<exists>i < length sorted_data.
        sorted_data ! i = a \<and> reading_order (h' a) = Some (int i + 1)) \<and>
    (distinct layout_data \<longrightarrow>
       (\<forall>i < length sorted_data. reading_order (h' (sorted_data ! i)) = Some (int i + 1))) \<and>
    analyze_reading_order h' sorted_data = (sorted_data, h') \<and>
    analyze_reading_order h' layout_data = (sorted_data, h') \<and>
    (\<forall>a \<in> set layout_data. \<forall>c \<in> set layout_data. \<forall>ba bc.
        bbox (h a) = Some ba \<and> bbox (h c) = Some bc \<and>
        4 \<le> length ba \<and> 4 \<le> length bc \<and> ba ! 1 < bc ! 1 \<longrightarrow>
        (\<exists>m n. reading_order (h' a) = Some m \<and> reading_order (h' c) = Some n \<and> m < n))"
proof -
  from res have sd: "sorted_data = sort_key (\<lambda>a. sort_key_item (h a)) layout_data"
    by (simp add: analyze_reading_order_eq)
  have srt: "sorted (map (\<lambda>a. sort_key_item (h a)) sorted_data)"
    by (rule analyze_sorted [OF res])
  have lex: "ba ! 1 < bc ! 1 \<or> (ba ! 1 = bc ! 1 \<and> ba ! 0 \<le> bc ! 0)"
    if "i \<le> j" "j < length sorted_data"
      "bbox (h (sorted_data ! i)) = Some ba" "bbox (h (sorted_data ! j)) = Some bc"
      "4 \<le> length ba" "4 \<le> length bc" for i j ba bc
  proof -
    from srt that(1,2)
    have "map (\<lambda>a. sort_key_item (h a)) sorted_data ! i
            \<le> map (\<lambda>a. sort_key_item (h a)) sorted_data ! j"
      by (simp add: sorted_iff_nth_mono del: nth_map)
    with that(1,2) have "sort_key_item (h (sorted_data ! i))
        \<le> sort_key_item (h (sorted_data ! j))"
      by simp
    with that(3-6) show ?thesis
      by (auto simp: sort_key_item_def less_eq_prod_def)
  qed
  have stable: "filter (\<lambda>a. sort_key_item (h a) = k) sorted_data =
      filter (\<lambda>a. sort_key_item (h a) = k) layout_data" for k
    unfolding sd by (rule sort_key_stable)
  have perm: "mset sorted_data = mset layout_data"
    unfolding sd by simp
  have some: "\<exists>i < length sorted_data.
      sorted_data ! i = a \<and> reading_order (h' a) = Some (int i + 1)"
    if "a \<in> set layout_data" for a
    using analyze_written [OF res that] by auto
  have num: "reading_order (h' (sorted_data ! i)) = Some (int i + 1)"
    if "distinct layout_data" "i < length sorted_data" for i
    using analyze_numbered [OF res that] by simp
  have mono: "\<exists>m n. reading_order (h' a) = Some m \<and> reading_order (h' c) = Some n \<and> m < n"
    if "a \<in> set layout_data" "c \<in> set layout_data"
      "bbox (h a) = Some ba" "bbox (h c) = Some bc"
      "4 \<le> length ba" "4 \<le> length bc" "ba ! 1 < bc ! 1" for a c ba bc
  proof -
    from that(3-7) have "sort_key_item (h a) < sort_key_item (h c)"
      by (simp add: sort_key_item_def less_prod_def)
    from analyze_order_lt [OF res that(1,2) this] show ?thesis .
  qed
  from srt lex stable perm some num analyze_again [OF res] mono show ?thesis
    by blast
qed

theorem reading_order_assignment_witness:
  "distinct [0, 1, 2 :: nat] \<and>
   fst (analyze_reading_order page0 [0, 1, 2]) = [1, 2, 0] \<and>
   reading_order (snd (analyze_reading_order page0 [0, 1, 2]) 1) = Some 1 \<and>
   reading_order (snd (analyze_reading_order page0 [0, 1, 2]) 2) = Some 2 \<and>
   reading_order (snd (analyze_reading_order page0 [0, 1, 2]) 0) = Some 3 \<and>
   analyze_reading_order (snd (analyze_reading_order page0 [0, 1, 2])) [0, 1, 2] =
     analyze_reading_order page0 [0, 1, 2]"
proof -
  define r where "r = analyze_reading_order page0 [0, 1, 2]"
  have res: "analyze_reading_order page0 [0, 1, 2] = (fst r, snd r)"
    by (simp add: r_def)
  have dist: "distinct [0, 1, 2 :: nat]"
    by simp
  have run: "fst r = [1, 2, 0]"
    by (simp add: r_def analyze_reading_order_eq page0_def sort_key_item_def)
  note inst = reading_order_assignment [OF res]
  from inst dist have num: "\<forall>i < length (fst r). reading_order (snd r (fst r ! i)) = Some (int i + 1)"
    by blast
  from num [rule_format, of 0] num [rule_format, of 1] num [rule_format, of 2]
  have "reading_order (snd r 1) = Some 1" "reading_order (snd r 2) = Some 2"
    "reading_order (snd r 0) = Some 3"
    by (simp_all add: run)
  moreover from inst have "analyze_reading_order (snd r) [0, 1, 2] = r"
    by (simp add: res)
  ultimately show ?thesis
    using dist run unfolding r_def by simp
qed

subsection \<open>Elements with a short bbox\<close>


subsection \<open>Lists as decoded from JSON\<close>


lemma item_sort_keys_raise:
  assumes "x \<in> set items" and "\<forall>e. x \<noteq> WellFormed e"
  shows "\<exists>err. item_sort_keys items = Inl err"
  using assms
proof (induction items)
  case Nil
  then show ?case by simp
next
  case (Cons y ys)
  show ?case
  proof (cases "item_sort_key y")
    case (Inl err)
    then show ?thesis by simp
  next
    case (Inr k)
    with Cons.prems have "x \<in> set ys"
      by (cases y) auto
    from Cons.IH [OF this Cons.prems(2)] Inr show ?thesis
      by auto
  qed
qed





section \<open>Properties of the category buckets\<close>

lemma empty_structured_content_apply:
  "empty_structured_content c = (if c \<in> set fixed_categories then Some [] else None)"
  by (simp add: empty_structured_content_def map_of_map_restrict restrict_map_def)

lemma unknown_not_fixed: "''Unknown'' \<notin> set fixed_categories"
  by (simp add: fixed_categories_def)

lemma classify_item_apply:
  "classify_item item sc c =
     (case sc c of
        None \<Rightarrow> None
      | Some items \<Rightarrow> Some (if category_or_unknown item = c then items @ [item] else items))"
  by (auto simp: classify_item_def Let_def split: option.splits)

lemma fold_classify_item:
  "fold classify_item xs sc c =
     (case sc c of
        None \<Rightarrow> None
      | Some items \<Rightarrow> Some (items @ filter (\<lambda>e. category_or_unknown e = c) xs))"
proof (induction xs arbitrary: sc)
  case Nil
  show ?case by (simp split: option.splits)
next
  case (Cons x xs)
  have "fold classify_item (x # xs) sc c =
      (case classify_item x sc c of
         None \<Rightarrow> None
       | Some items \<Rightarrow> Some (items @ filter (\<lambda>e. category_or_unknown e = c) xs))"
    by (simp add: Cons.IH)
  then show ?case
    unfolding classify_item_apply [of x sc c] by (simp split: option.splits)
qed

lemma category_or_unknown_fixed:
  "c \<in> set fixed_categories \<Longrightarrow> category_or_unknown e = c \<longleftrightarrow> category e = Some c"
  using unknown_not_fixed by (auto simp: category_or_unknown_def split: option.splits)

lemma bucket_fixed:
  assumes "c \<in> set fixed_categories"
  shows "extract_structured_content (Some layout_data) c =
           Some (filter (\<lambda>e. category e = Some c) layout_data)"
proof -
  have "filter (\<lambda>e. category_or_unknown e = c) layout_data =
          filter (\<lambda>e. category e = Some c) layout_data"
    by (rule filter_cong) (simp_all add: category_or_unknown_fixed [OF assms])
  with assms show ?thesis
    by (simp add: extract_structured_content_def fold_classify_item
        empty_structured_content_apply)
qed

lemma bucket_other:
  assumes "c \<notin> set fixed_categories"
  shows "extract_structured_content (Some layout_data) c = None"
  using assms
  by (simp add: extract_structured_content_def fold_classify_item
      empty_structured_content_apply)

text \<open>
  Claim C7. For every element list the function returns one list per category of the
  eleven fixed categories, and the list of a category is exactly the subsequence of the
  elements of that category, in their original relative order. For every set of target
  categories drawn from the fixed ones, the elements found in the lists of the target set
  are exactly the elements whose category is in the set. A category outside the fixed
  ones has no list. On a page with categories \<open>[Title, Text, Table, Text]\<close> the list \<open>Text\<close>
  holds the second and the fourth element, in this order.
\<close>

theorem category_filtering_subsequence:
  assumes "S \<subseteq> set fixed_categories"
  shows "(\<forall>c \<in> S. extract_structured_content (Some layout_data) c =
            Some (filter (\<lambda>e. category e = Some c) layout_data)) \<and>
    (\<forall>e. (\<exists>c \<in> S. \<exists>items. extract_structured_content (Some layout_data) c = Some items \<and>
              e \<in> set items) \<longleftrightarrow>
          (e \<in> set layout_data \<and> (\<exists>c \<in> S. category e = Some c))) \<and>
    (\<forall>c. c \<notin> set fixed_categories \<longrightarrow>
         extract_structured_content (Some layout_data) c = None) \<and>
    (\<forall>e1 e2 e3 e4.
        ''Text'' \<in> S \<and> category e1 = Some ''Title'' \<and> category e2 = Some ''Text'' \<and>
        category e3 = Some ''Table'' \<and> category e4 = Some ''Text'' \<longrightarrow>
        extract_structured_content (Some [e1, e2, e3, e4]) ''Text'' = Some [e2, e4])"
proof -
  have each: "extract_structured_content (Some xs) c =
      Some (filter (\<lambda>e. category e = Some c) xs)" if "c \<in> S" for c xs
    using assms that by (intro bucket_fixed) blast
  have together: "(\<exists>c \<in> S. \<exists>items. extract_structured_content (Some layout_data) c = Some items \<and>
              e \<in> set items) \<longleftrightarrow>
          (e \<in> set layout_data \<and> (\<exists>c \<in> S. category e = Some c))" for e
    by (auto simp: each)
  have other: "extract_structured_content (Some layout_data) c = None"
    if "c \<notin> set fixed_categories" for c
    by (rule bucket_other [OF that])
  have example: "extract_structured_content (Some [e1, e2, e3, e4]) ''Text'' = Some [e2, e4]"
    if "''Text'' \<in> S" "category e1 = Some ''Title''" "category e2 = Some ''Text''"
      "category e3 = Some ''Table''" "category e4 = Some ''Text''" for e1 e2 e3 e4
    using that by (simp add: each)
  from each together other example show ?thesis
    by blast
qed

theorem category_filtering_subsequence_witness:
  "{''Text''} \<subseteq> set fixed_categories \<and>
   extract_structured_content (Some [page0 2, page0 0, page0 2, page0 1]) ''Text'' =
     Some [page0 0, page0 1]"
proof -
  have sub: "{''Text''} \<subseteq> set fixed_categories"
    by (simp add: fixed_categories_def)
  from category_filtering_subsequence [OF sub, of "[page0 2, page0 0, page0 2, page0 1]"]
  have "extract_structured_content (Some [page0 2, page0 0, page0 2, page0 1]) ''Text'' =
      Some (filter (\<lambda>e. category e = Some ''Text'') [page0 2, page0 0, page0 2, page0 1])"
    by blast
  with sub show ?thesis
    by (simp add: page0_def)
qed

lemma bucket_eq:
  "extract_structured_content (Some layout_data) c =
     (if c \<in> set fixed_categories
      then Some (filter (\<lambda>e. category e = Some c) layout_data) else None)"
  by (simp add: bucket_fixed bucket_other)

text \<open>
  The function takes no target set and returns one list per category, so what it returns
  does not fix the relative order of elements of different categories: a title followed
  by a text block and the same two elements in the opposite order give the same buckets,
  while for the target set of both categories the two subsequences differ.
\<close>

theorem order_across_categories_not_returned:
  "category (page0 2) = Some ''Title'' \<and> category (page0 0) = Some ''Text'' \<and>
   {''Title'', ''Text''} \<subseteq> set fixed_categories \<and>
   extract_structured_content (Some [page0 2, page0 0]) =
     extract_structured_content (Some [page0 0, page0 2]) \<and>
   [page0 2, page0 0] \<noteq> [page0 0, page0 2]"
proof -
  have cats: "category (page0 2) = Some ''Title''" "category (page0 0) = Some ''Text''"
    by (simp_all add: page0_def)
  have sub: "{''Title'', ''Text''} \<subseteq> set fixed_categories"
    by (simp add: fixed_categories_def)
  have same: "extract_structured_content (Some [page0 2, page0 0]) =
      extract_structured_content (Some [page0 0, page0 2])"
  proof (rule ext)
    fix c
    show "extract_structured_content (Some [page0 2, page0 0]) c =
        extract_structured_content (Some [page0 0, page0 2]) c"
      unfolding bucket_eq using cats by auto
  qed
  have differ: "[page0 2, page0 0] \<noteq> [page0 0, page0 2]"
    by (simp add: page0_def)
  from cats sub same differ show ?thesis
    by simp
qed

section \<open>Properties of the page merge\<close>

lemma number_items_sound:
  "number_items n items = Inr es \<Longrightarrow>
     \<exists>es0. items = map Dict es0 \<and> es = map (\<lambda>e. e\<lparr>page_number := Some n\<rparr>) es0"
proof (induction n items arbitrary: es rule: number_items.induct)
  case (1 n)
  then show ?case by simp
next
  case (2 n item rest)
  from "2.prems" obtain tl where tl: "number_items n rest = Inr tl"
    "es = item\<lparr>page_number := Some n\<rparr> # tl"
    by (auto split: sum.splits)
  from "2.IH" [OF tl(1)] obtain es0 where "rest = map Dict es0"
    "tl = map (\<lambda>e. e\<lparr>page_number := Some n\<rparr>) es0"
    by blast
  with tl(2) show ?case
    by (intro exI [of _ "item # es0"]) simp
next
  case (3 n rest)
  then show ?case by simp
qed

lemma number_items_complete:
  "number_items n (map Dict es0) = Inr (map (\<lambda>e. e\<lparr>page_number := Some n\<rparr>) es0)"
  by (induction es0) simp_all

lemma number_page_sound:
  assumes "number_page n j = Inr es" and "e \<in> set es"
  shows "\<exists>items e0. j = JList items \<and> Dict e0 \<in> set items \<and> e = e0\<lparr>page_number := Some n\<rparr>"
proof (cases j)
  case (JList items)
  with assms(1) have "number_items n items = Inr es" by simp
  from number_items_sound [OF this] obtain es0 where es0: "items = map Dict es0"
    "es = map (\<lambda>e. e\<lparr>page_number := Some n\<rparr>) es0"
    by blast
  from assms(2) es0(2) obtain e0 where "e0 \<in> set es0" "e = e0\<lparr>page_number := Some n\<rparr>"
    by auto
  with es0(1) JList show ?thesis by auto
next
  case (JString s)
  with assms show ?thesis by (simp split: if_splits)
next
  case (JObject keys)
  with assms show ?thesis by (simp split: if_splits)
next
  case JScalar
  with assms show ?thesis by simp
qed

lemma merge_step_fst:
  "fst (merge_step result acc) =
     fst acc @
       (case layout_info_path result of
          Holds j \<Rightarrow> (case number_page (page_no_of result + 1) j of
                        Inl e \<Rightarrow> [] | Inr es \<Rightarrow> es)
        | _ \<Rightarrow> [])"
  by (simp add: merge_step_def Let_def read_page_layout_def
      split: path_ref.splits sum.splits)

lemma fold_merge_step_fst:
  "fst (fold merge_step results acc) =
     fst acc @
       concat (map (\<lambda>result.
          case layout_info_path result of
            Holds j \<Rightarrow> (case number_page (page_no_of result + 1) j of
                          Inl e \<Rightarrow> [] | Inr es \<Rightarrow> es)
          | _ \<Rightarrow> []) results)"
proof (induction results arbitrary: acc)
  case Nil
  show ?case by simp
next
  case (Cons r rs)
  have "fst (fold merge_step (r # rs) acc) = fst (fold merge_step rs (merge_step r acc))"
    by simp
  also note Cons.IH [of "merge_step r acc"]
  finally show ?case
    unfolding merge_step_fst [of r acc] by simp
qed

lemma merged_elements_origin:
  assumes "e \<in> set (fst (fold merge_step results ([], [])))"
  shows "\<exists>i < length results. \<exists>items e0.
           layout_info_path (results ! i) = Holds (JList items) \<and> Dict e0 \<in> set items \<and>
           e = e0\<lparr>page_number := Some (page_no_of (results ! i) + 1)\<rparr>"
proof -
  from assms obtain r where r: "r \<in> set results"
    "e \<in> set (case layout_info_path r of
          Holds j \<Rightarrow> (case number_page (page_no_of r + 1) j of Inl e \<Rightarrow> [] | Inr es \<Rightarrow> es)
        | _ \<Rightarrow> [])"
    unfolding fold_merge_step_fst by auto
  from r(2) obtain j es where j: "layout_info_path r = Holds j"
    "number_page (page_no_of r + 1) j = Inr es" "e \<in> set es"
    by (auto split: path_ref.splits sum.splits) metis
  from number_page_sound [OF j(2,3)] obtain items e0 where
    "j = JList items" "Dict e0 \<in> set items" "e = e0\<lparr>page_number := Some (page_no_of r + 1)\<rparr>"
    by blast
  moreover from r(1) obtain i where "i < length results" "results ! i = r"
    by (auto simp: in_set_conv_nth)
  ultimately show ?thesis using j(1) by blast
qed

lemma merged_elements_kept:
  assumes "i < length results"
    and "layout_info_path (results ! i) = Holds (JList (map Dict es0))"
    and "e0 \<in> set es0"
  shows "e0\<lparr>page_number := Some (page_no_of (results ! i) + 1)\<rparr>
           \<in> set (fst (fold merge_step results ([], [])))"
proof -
  let ?f = "\<lambda>result.
          case layout_info_path result of
            Holds j \<Rightarrow> (case number_page (page_no_of result + 1) j of
                          Inl e \<Rightarrow> [] | Inr es \<Rightarrow> es)
          | _ \<Rightarrow> []"
  from assms(2) have "?f (results ! i) =
      map (\<lambda>e. e\<lparr>page_number := Some (page_no_of (results ! i) + 1)\<rparr>) es0"
    by (simp add: number_items_complete)
  with assms(3) have "e0\<lparr>page_number := Some (page_no_of (results ! i) + 1)\<rparr>
      \<in> set (?f (results ! i))"
    by simp
  moreover from assms(1) have "results ! i \<in> set results" by simp
  ultimately show ?thesis
    unfolding fold_merge_step_fst by (simp del: nth_mem) blast
qed

text \<open>
  Claim C8. \<open>merge_pdf_results\<close> returns for every list of page results, whatever the state
  of the per-page files: the empty dict for no pages, and otherwise a summary with one
  entry per page, in page order, numbered \<open>page_no + 1\<close>, which is \<open>1, 2, \<dots>\<close> when each page
  records its own index. Every retained element comes from a page whose layout file holds
  a list, and carries \<open>page_number = page_no + 1\<close> of that page; a page whose layout file
  holds a list of dicts has all its elements retained, whatever happens on other pages.
\<close>

theorem merge_numbers_pages_and_completes:
  "(results = [] \<longrightarrow> merge_pdf_results results = None) \<and>
   (results \<noteq> [] \<longrightarrow>
     (\<exists>m. merge_pdf_results results = Some m \<and>
        total_pages m = length results \<and>
        length (pages_info m) = length results \<and>
        (\<forall>i < length results.
           info_page_number (pages_info m ! i) = page_no_of (results ! i) + 1) \<and>
        ((\<forall>i < length results. page_no (results ! i) = Some (int i)) \<longrightarrow>
           map info_page_number (pages_info m) = map (\<lambda>i. int i + 1) [0..<length results]) \<and>
        (\<forall>e \<in> set (all_layout_data m). \<exists>i < length results. \<exists>items e0.
           layout_info_path (results ! i) = Holds (JList items) \<and> Dict e0 \<in> set items \<and>
           e = e0\<lparr>page_number := Some (page_no_of (results ! i) + 1)\<rparr>) \<and>
        (\<forall>i < length results. \<forall>es0. \<forall>e0 \<in> set es0.
           layout_info_path (results ! i) = Holds (JList (map Dict es0)) \<longrightarrow>
           e0\<lparr>page_number := Some (page_no_of (results ! i) + 1)\<rparr> \<in> set (all_layout_data m)) \<and>
        total_layout_elements m = length (all_layout_data m)))"
proof (intro conjI impI)
  assume "results = []"
  then show "merge_pdf_results results = None"
    by (simp add: merge_pdf_results_def)
next
  assume ne: "results \<noteq> []"
  define m where "m =
    \<lparr>total_pages = length results,
     total_layout_elements = length (fst (fold merge_step results ([], []))),
     pages_info = map page_info_of results,
     category_statistics = fold count_category (fst (fold merge_step results ([], []))) Map.empty,
     all_layout_data = fst (fold merge_step results ([], [])),
     all_text_content = snd (fold merge_step results ([], []))\<rparr>"
  from ne have res: "merge_pdf_results results = Some m"
    by (simp add: merge_pdf_results_def Let_def m_def)
  have pages: "info_page_number (pages_info m ! i) = page_no_of (results ! i) + 1"
    if "i < length results" for i
    using that by (simp add: m_def page_info_of_def)
  have indexed: "map info_page_number (pages_info m) = map (\<lambda>i. int i + 1) [0..<length results]"
    if "\<forall>i < length results. page_no (results ! i) = Some (int i)"
  proof (rule nth_equalityI)
    show "length (map info_page_number (pages_info m)) =
        length (map (\<lambda>i. int i + 1) [0..<length results])"
      by (simp add: m_def)
  next
    fix i
    assume "i < length (map info_page_number (pages_info m))"
    then have i: "i < length results" by (simp add: m_def)
    with that have "page_no_of (results ! i) = int i"
      by (simp add: page_no_of_def)
    with i pages [OF i] show "map info_page_number (pages_info m) ! i =
        map (\<lambda>i. int i + 1) [0..<length results] ! i"
      by (simp add: m_def)
  qed
  have origin: "\<exists>i < length results. \<exists>items e0.
           layout_info_path (results ! i) = Holds (JList items) \<and> Dict e0 \<in> set items \<and>
           e = e0\<lparr>page_number := Some (page_no_of (results ! i) + 1)\<rparr>"
    if "e \<in> set (all_layout_data m)" for e
    using that merged_elements_origin [of e results] by (simp add: m_def)
  have kept: "e0\<lparr>page_number := Some (page_no_of (results ! i) + 1)\<rparr> \<in> set (all_layout_data m)"
    if "i < length results" "e0 \<in> set es0"
      "layout_info_path (results ! i) = Holds (JList (map Dict es0))" for i es0 e0
    using merged_elements_kept [OF that(1,3,2)] by (simp add: m_def)
  have "total_pages m = length results" "length (pages_info m) = length results"
    "total_layout_elements m = length (all_layout_data m)"
    by (simp_all add: m_def)
  with res pages indexed origin kept
  show "\<exists>m. merge_pdf_results results = Some m \<and>
        total_pages m = length results \<and>
        length (pages_info m) = length results \<and>
        (\<forall>i < length results.
           info_page_number (pages_info m ! i) = page_no_of (results ! i) + 1) \<and>
        ((\<forall>i < length results. page_no (results ! i) = Some (int i)) \<longrightarrow>
           map info_page_number (pages_info m) = map (\<lambda>i. int i + 1) [0..<length results]) \<and>
        (\<forall>e \<in> set (all_layout_data m). \<exists>i < length results. \<exists>items e0.
           layout_info_path (results ! i) = Holds (JList items) \<and> Dict e0 \<in> set items \<and>
           e = e0\<lparr>page_number := Some (page_no_of (results ! i) + 1)\<rparr>) \<and>
        (\<forall>i < length results. \<forall>es0. \<forall>e0 \<in> set es0.
           layout_info_path (results ! i) = Holds (JList (map Dict es0)) \<longrightarrow>
           e0\<lparr>page_number := Some (page_no_of (results ! i) + 1)\<rparr> \<in> set (all_layout_data m)) \<and>
        total_layout_elements m = length (all_layout_data m)"
    by (intro exI [of _ m]) blast
qed

theorem merge_numbers_pages_and_completes_witness:
  "doc0 \<noteq> [] \<and> page_no (doc0 ! 0) = Some 0 \<and> page_no (doc0 ! 1) = Some 1 \<and>
   (\<exists>m. merge_pdf_results doc0 = Some m \<and> total_pages m = 2 \<and>
      map info_page_number (pages_info m) = [1, 2] \<and>
      (page0 2)\<lparr>page_number := Some 1\<rparr> \<in> set (all_layout_data m) \<and>
      list_all (\<lambda>e. page_number e = Some 1) (all_layout_data m))"
proof -
  have ne: "doc0 \<noteq> []"
    by (simp add: doc0_def)
  have len: "length doc0 = 2"
    by (simp add: doc0_def)
  have idx: "\<forall>i < length doc0. page_no (doc0 ! i) = Some (int i)"
    by (simp add: doc0_def less_Suc_eq)
  have first: "layout_info_path (doc0 ! 0) = Holds (JList (map Dict [page0 2, page0 0]))"
    "page_no_of (doc0 ! 0) = 0"
    by (simp_all add: doc0_def page_no_of_def)
  have second: "layout_info_path (doc0 ! 1) = Holds (JString ''timeout'')"
    by (simp add: doc0_def)
  from merge_numbers_pages_and_completes [of doc0] ne obtain m where
    m: "merge_pdf_results doc0 = Some m" "total_pages m = length doc0"
      "(\<forall>i < length doc0. page_no (doc0 ! i) = Some (int i)) \<longrightarrow>
         map info_page_number (pages_info m) = map (\<lambda>i. int i + 1) [0..<length doc0]"
      "\<forall>e \<in> set (all_layout_data m). \<exists>i < length doc0. \<exists>items e0.
           layout_info_path (doc0 ! i) = Holds (JList items) \<and> Dict e0 \<in> set items \<and>
           e = e0\<lparr>page_number := Some (page_no_of (doc0 ! i) + 1)\<rparr>"
      "\<forall>i < length doc0. \<forall>es0. \<forall>e0 \<in> set es0.
           layout_info_path (doc0 ! i) = Holds (JList (map Dict es0)) \<longrightarrow>
           e0\<lparr>page_number := Some (page_no_of (doc0 ! i) + 1)\<rparr> \<in> set (all_layout_data m)"
    by blast
  from m(3) idx have nums: "map info_page_number (pages_info m) = [1, 2]"
    by (simp add: len upt_rec)
  have kept: "(page0 2)\<lparr>page_number := Some 1\<rparr> \<in> set (all_layout_data m)"
    using m(5) [rule_format, OF _ _ first(1), of "page0 2"] len first(2) by simp
  have all1: "page_number e = Some 1" if "e \<in> set (all_layout_data m)" for e
  proof -
    from m(4) that obtain i items e0 where i: "i < length doc0"
      "layout_info_path (doc0 ! i) = Holds (JList items)"
      "e = e0\<lparr>page_number := Some (page_no_of (doc0 ! i) + 1)\<rparr>"
      by blast
    from i(1,2) second len have "i = 0"
      by (cases "i = 0") (auto simp: less_Suc_eq numeral_2_eq_2)
    with i(3) first(2) show ?thesis by simp
  qed
  from all1 have "list_all (\<lambda>e. page_number e = Some 1) (all_layout_data m)"
    by (simp add: list_all_iff)
  moreover have "page_no (doc0 ! 0) = Some 0" "page_no (doc0 ! 1) = Some 1"
    by (simp_all add: doc0_def)
  ultimately show ?thesis
    using ne m(1,2) len nums kept by auto
qed

section \<open>Properties of reading back a parsed PDF\<close>

lemma read_existing_Inr:
  "read_existing p = Inr v \<Longrightarrow> v = (case p of Holds j \<Rightarrow> Some j | _ \<Rightarrow> None)"
  by (auto simp: read_existing_def split: path_ref.splits)

lemma read_page_Inr:
  assumes "read_page i result = Inr (page, cells, md)"
  shows "cells_data page = (case layout_info_path result of Holds j \<Rightarrow> Some j | _ \<Rightarrow> None)"
    and "api_filtered page = is_filtered result"
    and "cells = cells_of_page result (cells_data page)"
  using assms
  by (auto simp: read_page_def split: sum.splits dest!: read_existing_Inr)

lemma cells_of_page_eq:
  "cells_of_page result (case layout_info_path result of Holds j \<Rightarrow> Some j | _ \<Rightarrow> None) =
     (if is_filtered result then []
      else case layout_info_path result of Holds (JList items) \<Rightarrow> items | _ \<Rightarrow> [])"
  by (simp add: cells_of_page_def split: path_ref.splits json.splits)

lemma read_pages_Inr:
  "read_pages i results = Inr (pages, cells, md) \<Longrightarrow>
     length pages = length results \<and>
     (\<forall>k < length results.
        cells_data (pages ! k) =
          (case layout_info_path (results ! k) of Holds j \<Rightarrow> Some j | _ \<Rightarrow> None) \<and>
        api_filtered (pages ! k) = is_filtered (results ! k)) \<and>
     cells = concat (map (\<lambda>r.
        if is_filtered r then []
        else case layout_info_path r of Holds (JList items) \<Rightarrow> items | _ \<Rightarrow> []) results)"
proof (induction results arbitrary: i pages cells md)
  case Nil
  then show ?case by simp
next
  case (Cons r rs)
  from Cons.prems obtain page c1 m1 pages' cells' md' where
    hd: "read_page i r = Inr (page, c1, m1)" and
    tl: "read_pages (Suc i) rs = Inr (pages', cells', md')" and
    eq: "pages = page # pages'" "cells = c1 @ cells'"
    by (auto split: sum.splits prod.splits)
  note ih = Cons.IH [OF tl]
  from read_page_Inr [OF hd] have p: "cells_data page =
      (case layout_info_path r of Holds j \<Rightarrow> Some j | _ \<Rightarrow> None)"
    "api_filtered page = is_filtered r"
    "c1 = (if is_filtered r then []
           else case layout_info_path r of Holds (JList items) \<Rightarrow> items | _ \<Rightarrow> [])"
    by (simp_all add: cells_of_page_eq)
  have "length pages = length (r # rs)"
    using ih eq by simp
  moreover have "cells_data (pages ! k) =
          (case layout_info_path ((r # rs) ! k) of Holds j \<Rightarrow> Some j | _ \<Rightarrow> None) \<and>
        api_filtered (pages ! k) = is_filtered ((r # rs) ! k)" if "k < length (r # rs)" for k
    using that ih p(1,2) eq(1) by (cases k) simp_all
  moreover have "cells = concat (map (\<lambda>r.
        if is_filtered r then []
        else case layout_info_path r of Holds (JList items) \<Rightarrow> items | _ \<Rightarrow> []) (r # rs))"
    using ih p(3) eq(2) by simp
  ultimately show ?case by blast
qed

text \<open>
  Claim C10. When \<open>parse_pdf_with_api\<close> succeeds, \<open>combined_cells_data\<close> is the concatenation,
  in page order, of the layout lists of the pages that are not filtered; a filtered page
  adds nothing, also when its layout file is readable and holds a list, and a page whose
  layout value is not a list adds nothing. The per-page \<open>cells_data\<close> is the decoded file
  whatever the flag, so for a filtered page with a readable list it holds elements that
  the combined list lacks.
\<close>

theorem filtered_pages_left_out_of_combined:
  assumes "parse_pdf_with_api pdf_exists (Some results) = Inr out"
  shows "length (parsed_results out) = length results \<and>
    combined_cells_data out =
      concat (map (\<lambda>r.
        if is_filtered r then []
        else case layout_info_path r of Holds (JList items) \<Rightarrow> items | _ \<Rightarrow> []) results) \<and>
    (\<forall>k < length results.
        cells_data (parsed_results out ! k) =
          (case layout_info_path (results ! k) of Holds j \<Rightarrow> Some j | _ \<Rightarrow> None) \<and>
        api_filtered (parsed_results out ! k) = is_filtered (results ! k)) \<and>
    ((\<forall>r \<in> set results. is_filtered r) \<longrightarrow> combined_cells_data out = [])"
proof -
  from assms obtain pages cells md where
    rd: "read_pages 0 results = Inr (pages, cells, md)" and
    out: "parsed_results out = pages" "combined_cells_data out = cells"
    by (auto simp: parse_pdf_with_api_def split: if_splits sum.splits prod.splits)
  note r = read_pages_Inr [OF rd]
  from r have cells: "cells = concat (map (\<lambda>r.
        if is_filtered r then []
        else case layout_info_path r of Holds (JList items) \<Rightarrow> items | _ \<Rightarrow> []) results)"
    by blast
  have "cells = []" if "\<forall>r \<in> set results. is_filtered r"
    unfolding cells using that by (induction results) simp_all
  with r out show ?thesis
    by simp
qed

theorem filtered_pages_left_out_of_combined_witness:
  "(\<exists>out. parse_pdf_with_api True (Some doc1) = Inr out \<and>
      is_filtered (doc1 ! 1) \<and>
      cells_data (parsed_results out ! 1) = Some (JList [Dict (page0 0)]) \<and>
      combined_cells_data out = [Dict (page0 2)])"
proof -
  have rd: "read_pages 0 doc1 =
      Inr ([\<lparr>api_page_no = 0, layout_image = None,
              cells_data = Some (JList [Dict (page0 2)]),
              md_content = Some ''Report'', api_filtered = False\<rparr>,
            \<lparr>api_page_no = 1, layout_image = None,
              cells_data = Some (JList [Dict (page0 0)]),
              md_content = None, api_filtered = True\<rparr>],
           [Dict (page0 2)], [''Report''])"
    by (simp add: doc1_def read_page_def read_existing_def is_filtered_def cells_of_page_def)
  then obtain out where out: "parse_pdf_with_api True (Some doc1) = Inr out"
    by (simp add: parse_pdf_with_api_def doc1_def)
  have flt: "is_filtered (doc1 ! 1)"
    "layout_info_path (doc1 ! 1) = Holds (JList [Dict (page0 0)])"
    by (simp_all add: doc1_def is_filtered_def)
  note inst = filtered_pages_left_out_of_combined [OF out]
  from inst have comb: "combined_cells_data out = [Dict (page0 2)]"
    by (simp add: doc1_def is_filtered_def)
  from inst have "cells_data (parsed_results out ! 1) =
      (case layout_info_path (doc1 ! 1) of Holds j \<Rightarrow> Some j | _ \<Rightarrow> None)"
    by (simp add: doc1_def)
  with flt(2) have "cells_data (parsed_results out ! 1) = Some (JList [Dict (page0 0)])"
    by simp
  with out flt(1) comb show ?thesis
    by blast
qed

section \<open>Properties of the coordinate normalization\<close>

lemma clip_bounds: "0 \<le> hi \<Longrightarrow> 0 \<le> clip 0 hi v \<and> clip 0 hi v \<le> hi"
  by (simp add: clip_def)

lemma clip_collapse: "hi < 0 \<Longrightarrow> clip 0 hi v = 0"
  by (simp add: clip_def)

lemma clip_id: "0 \<le> v \<Longrightarrow> v \<le> hi \<Longrightarrow> clip 0 hi v = v"
  by (simp add: clip_def)

lemma clip_bbox_Some:
  "clip_bbox width height b = Some b' \<Longrightarrow>
     \<exists>x1 y1 x2 y2. b = [x1, y1, x2, y2] \<and>
       b' = [clip 0 width x1, clip 0 height y1, clip 0 width x2, clip 0 height y2]"
  by (induction width height b rule: clip_bbox.induct) simp_all

lemma positive_area_within:
  assumes "bbox_area [clip 0 width x1, clip 0 height y1, clip 0 width x2, clip 0 height y2] \<noteq> 0"
  shows "0 \<le> clip 0 width x1 \<and> clip 0 width x1 < clip 0 width x2 \<and> clip 0 width x2 \<le> width \<and>
         0 \<le> clip 0 height y1 \<and> clip 0 height y1 < clip 0 height y2 \<and>
         clip 0 height y2 \<le> height"
proof -
  from assms have x: "clip 0 width x1 < clip 0 width x2"
    and y: "clip 0 height y1 < clip 0 height y2"
    by (auto simp: max_def split: if_splits)
  have w: "0 \<le> width"
  proof (rule ccontr)
    assume "\<not> 0 \<le> width"
    then have "clip 0 width x1 = 0" "clip 0 width x2 = 0"
      by (simp_all add: clip_collapse)
    with x show False by simp
  qed
  have h: "0 \<le> height"
  proof (rule ccontr)
    assume "\<not> 0 \<le> height"
    then have "clip 0 height y1 = 0" "clip 0 height y2 = 0"
      by (simp_all add: clip_collapse)
    with y show False by simp
  qed
  from x y clip_bounds [OF w] clip_bounds [OF h] show ?thesis
    by simp
qed

lemma normalize_element_within:
  assumes "normalize_element width height e = Some e'"
  shows "within_page width height e'"
proof -
  from assms obtain b b' where b: "bbox e = Some b" "clip_bbox width height b = Some b'"
    "bbox_area b' \<noteq> 0" "e' = e\<lparr>bbox := Some b'\<rparr>"
    by (auto simp: normalize_element_def split: option.splits if_splits)
  from clip_bbox_Some [OF b(2)] obtain x1 y1 x2 y2 where
    b': "b' = [clip 0 width x1, clip 0 height y1, clip 0 width x2, clip 0 height y2]"
    by blast
  from positive_area_within [OF b(3) [unfolded b']] show ?thesis
    by (simp add: within_page_def b(4) b')
qed

lemma within_page_fixed:
  assumes "within_page width height e"
  shows "normalize_element width height e = Some e"
proof -
  from assms obtain x1 y1 x2 y2 where b: "bbox e = Some [x1, y1, x2, y2]"
    "0 \<le> x1" "x1 < x2" "x2 \<le> width" "0 \<le> y1" "y1 < y2" "y2 \<le> height"
    by (auto simp: within_page_def split: option.splits list.splits)
  then have "clip_bbox width height [x1, y1, x2, y2] = Some [x1, y1, x2, y2]"
    by (simp add: clip_id)
  moreover from b have "bbox_area [x1, y1, x2, y2] \<noteq> 0"
    by simp
  moreover from b(1) have "e\<lparr>bbox := Some [x1, y1, x2, y2]\<rparr> = e"
    by simp
  ultimately show ?thesis
    by (simp add: normalize_element_def b(1))
qed

lemma normalize_coordinates_within:
  "e \<in> set (normalize_coordinates width height elements) \<Longrightarrow> within_page width height e"
  by (auto simp: normalize_coordinates_def map_filter_def dest: normalize_element_within)

lemma normalize_coordinates_fixed:
  "list_all (within_page width height) elements \<Longrightarrow>
     normalize_coordinates width height elements = elements"
  by (induction elements)
    (simp_all add: normalize_coordinates_def within_page_fixed)

text \<open>
  Claim C5. Every element that coordinate normalization hands on satisfies
  \<open>0 \<le> x1 < x2 \<le> width\<close> and \<open>0 \<le> y1 < y2 \<le> height\<close>, for every page size and every input
  list; each such element is an input element with its bbox clipped to the page, so an
  input element that violates the invariant is either changed or dropped. Elements that
  satisfy the invariant already are handed on as they are, and normalizing twice gives the
  same list as normalizing once.
\<close>

theorem normalized_elements_within_page:
  "(\<forall>e \<in> set (normalize_coordinates width height elements).
      \<exists>x1 y1 x2 y2. bbox e = Some [x1, y1, x2, y2] \<and>
        0 \<le> x1 \<and> x1 < x2 \<and> x2 \<le> width \<and> 0 \<le> y1 \<and> y1 < y2 \<and> y2 \<le> height) \<and>
   (\<forall>e \<in> set (normalize_coordinates width height elements).
      \<exists>e0 \<in> set elements. \<exists>b0. bbox e0 = Some b0 \<and>
        clip_bbox width height b0 = bbox e \<and> e = e0\<lparr>bbox := bbox e\<rparr>) \<and>
   (\<forall>e \<in> set elements. \<not> within_page width height e \<longrightarrow>
      e \<notin> set (normalize_coordinates width height elements)) \<and>
   (list_all (within_page width height) elements \<longrightarrow>
      normalize_coordinates width height elements = elements) \<and>
   normalize_coordinates width height (normalize_coordinates width height elements) =
     normalize_coordinates width height elements"
proof -
  let ?out = "normalize_coordinates width height elements"
  have inv: "\<exists>x1 y1 x2 y2. bbox e = Some [x1, y1, x2, y2] \<and>
        0 \<le> x1 \<and> x1 < x2 \<and> x2 \<le> width \<and> 0 \<le> y1 \<and> y1 < y2 \<and> y2 \<le> height"
    if "e \<in> set ?out" for e
    using normalize_coordinates_within [OF that]
    by (auto simp: within_page_def split: option.splits list.splits)
  have origin: "\<exists>e0 \<in> set elements. \<exists>b0. bbox e0 = Some b0 \<and>
        clip_bbox width height b0 = bbox e \<and> e = e0\<lparr>bbox := bbox e\<rparr>"
    if "e \<in> set ?out" for e
  proof -
    from that obtain e0 where e0: "e0 \<in> set elements" "normalize_element width height e0 = Some e"
      by (auto simp: normalize_coordinates_def map_filter_def split: option.splits)
    from e0(2) obtain b b' where "bbox e0 = Some b" "clip_bbox width height b = Some b'"
      "e = e0\<lparr>bbox := Some b'\<rparr>"
      by (auto simp: normalize_element_def split: option.splits if_splits)
    with e0(1) show ?thesis
      by (intro bexI [of _ e0]) simp_all
  qed
  have changed: "e \<notin> set ?out" if "\<not> within_page width height e" for e
    using that normalize_coordinates_within by blast
  have fixed: "?out = elements" if "list_all (within_page width height) elements"
    by (rule normalize_coordinates_fixed [OF that])
  have "list_all (within_page width height) ?out"
    by (simp add: list_all_iff normalize_coordinates_within)
  then have idem: "normalize_coordinates width height ?out = ?out"
    by (rule normalize_coordinates_fixed)
  from inv origin changed fixed idem show ?thesis
    by blast
qed

theorem normalized_elements_within_page_witness:
  "normalize_coordinates 100 80
      [page0 0, page0 1, (page0 0)\<lparr>bbox := Some [120, 10, 150, 20]\<rparr>] =
     [(page0 0)\<lparr>bbox := Some [10, 50, 100, 80]\<rparr>] \<and>
   (\<exists>x1 y1 x2 y2. bbox ((page0 0)\<lparr>bbox := Some [10, 50, 100, 80]\<rparr>) = Some [x1, y1, x2, y2] \<and>
      0 \<le> x1 \<and> x1 < x2 \<and> x2 \<le> 100 \<and> 0 \<le> y1 \<and> y1 < y2 \<and> y2 \<le> 80)"
proof -
  have run: "normalize_coordinates 100 80
      [page0 0, page0 1, (page0 0)\<lparr>bbox := Some [120, 10, 150, 20]\<rparr>] =
     [(page0 0)\<lparr>bbox := Some [10, 50, 100, 80]\<rparr>]"
    by (simp add: normalize_coordinates_def normalize_element_def page0_def clip_def)
  then have "(page0 0)\<lparr>bbox := Some [10, 50, 100, 80]\<rparr> \<in> set (normalize_coordinates 100 80
      [page0 0, page0 1, (page0 0)\<lparr>bbox := Some [120, 10, 150, 20]\<rparr>])"
    by simp
  with normalized_elements_within_page [of 100 80
      "[page0 0, page0 1, (page0 0)\<lparr>bbox := Some [120, 10, 150, 20]\<rparr>]"]
  have "\<exists>x1 y1 x2 y2. bbox ((page0 0)\<lparr>bbox := Some [10, 50, 100, 80]\<rparr>) = Some [x1, y1, x2, y2] \<and>
      0 \<le> x1 \<and> x1 < x2 \<and> x2 \<le> 100 \<and> 0 \<le> y1 \<and> y1 < y2 \<and> y2 \<le> 80"
    by blast
  with run show ?thesis
    by blast
qed

section \<open>Properties of the coordinate mapping\<close>

lemma scaled_error:
  fixes u x s d :: real
  assumes "0 < s" and "\<bar>u - x * s\<bar> \<le> d"
  shows "\<bar>u / s - x\<bar> \<le> d / s"
proof -
  from assms(1) have "u / s - x = (u - x * s) / s"
    by (simp add: field_simps)
  then have "\<bar>u / s - x\<bar> = \<bar>u - x * s\<bar> / s"
    using assms(1) by simp
  with assms show ?thesis
    by (simp add: divide_right_mono)
qed

lemma round_trip_coordinate:
  assumes scale: "0 < scale"
    and rnd: "\<forall>y. \<bar>real_of_int (rnd y) - y\<bar> \<le> d"
  shows "\<bar>real_of_int (rnd (real_of_int (rnd (real_of_int v * scale)) / scale)) - real_of_int v\<bar>
           \<le> d + d / scale"
proof -
  let ?u = "real_of_int (rnd (real_of_int v * scale))"
  from rnd have "\<bar>?u - real_of_int v * scale\<bar> \<le> d"
    by blast
  from scaled_error [OF scale this] have bk: "\<bar>?u / scale - real_of_int v\<bar> \<le> d / scale" .
  from rnd have "\<bar>real_of_int (rnd (?u / scale)) - ?u / scale\<bar> \<le> d"
    by blast
  with bk show ?thesis
    by linarith
qed

lemma round_trip_exact:
  assumes scale: "1 \<le> scale"
  shows "round (real_of_int (round (real_of_int v * scale)) / scale) = v"
proof -
  let ?u = "real_of_int (round (real_of_int v * scale))"
  from scale have pos: "0 < scale" by simp
  have "\<bar>?u - real_of_int v * scale\<bar> \<le> 1 / 2"
    by (rule of_int_round_abs_le)
  from scaled_error [OF pos this] have near: "\<bar>?u / scale - real_of_int v\<bar> \<le> (1 / 2) / scale" .
  show ?thesis
  proof (cases "scale = 1")
    case True
    then show ?thesis by simp
  next
    case False
    with scale have "1 < scale" by simp
    then have "(1 / 2) / scale < 1 / 2"
      by (simp add: field_simps)
    with near have lt: "\<bar>?u / scale - real_of_int v\<bar> < 1 / 2"
      by linarith
    show ?thesis
    proof (rule round_unique)
      from lt show "?u / scale - 1 / 2 < real_of_int v" by linarith
      from lt show "real_of_int v \<le> ?u / scale + 1 / 2" by linarith
    qed
  qed
qed

text \<open>
  Claim C6. Mapping an original-space bbox into the scaled space and back gives a bbox of
  the same length whose every coordinate differs from the original by at most the rounding
  tolerance: with a scale factor \<open>scale > 0\<close> and a rounding that is off by at most \<open>d\<close>
  pixels, the difference is at most \<open>d\<close> original pixels for the rounding on the way back
  plus \<open>d\<close> scaled pixels, that is \<open>d / scale\<close> original pixels, for the rounding on the way
  in. With rounding to the nearest pixel and a scale factor of at least 1 the round trip
  gives the original bbox exactly.
\<close>

theorem bbox_round_trip:
  assumes "0 < scale" and "\<forall>y. \<bar>real_of_int (rnd y) - y\<bar> \<le> d"
  shows "length (to_original rnd scale (to_scaled rnd scale b)) = length b \<and>
    (\<forall>i < length b.
       \<bar>real_of_int (to_original rnd scale (to_scaled rnd scale b) ! i) - real_of_int (b ! i)\<bar>
         \<le> d + d / scale) \<and>
    (1 \<le> scale \<longrightarrow> to_original round scale (to_scaled round scale b) = b)"
proof -
  have len: "length (to_original rnd scale (to_scaled rnd scale b)) = length b"
    by (simp add: to_original_def to_scaled_def)
  have near: "\<bar>real_of_int (to_original rnd scale (to_scaled rnd scale b) ! i)
       - real_of_int (b ! i)\<bar> \<le> d + d / scale" if "i < length b" for i
    using that round_trip_coordinate [OF assms, of "b ! i"]
    by (simp add: to_original_def to_scaled_def)
  have exact: "to_original round scale (to_scaled round scale b) = b" if "1 \<le> scale"
    using round_trip_exact [OF that]
    by (simp add: to_original_def to_scaled_def map_idI)
  from len near exact show ?thesis
    by blast
qed

theorem bbox_round_trip_witness:
  "(0 :: real) < 1 / 2 \<and> (\<forall>y :: real. \<bar>real_of_int (round y) - y\<bar> \<le> 1 / 2) \<and>
   length (to_original round (1 / 2) (to_scaled round (1 / 2) [10, 50, 200, 100])) = 4 \<and>
   \<bar>real_of_int (to_original round (1 / 2) (to_scaled round (1 / 2) [10, 50, 200, 100]) ! 1)
      - 50\<bar> \<le> 3 / 2"
proof -
  have scale: "(0 :: real) < 1 / 2"
    by simp
  have rnd: "\<forall>y :: real. \<bar>real_of_int (round y) - y\<bar> \<le> 1 / 2"
    by (intro allI of_int_round_abs_le)
  from bbox_round_trip [OF scale rnd, of "[10, 50, 200, 100]"]
  have "length (to_original round (1 / 2) (to_scaled round (1 / 2) [10, 50, 200, 100])) = 4"
    and "\<forall>i < 4.
       \<bar>real_of_int (to_original round (1 / 2) (to_scaled round (1 / 2) [10, 50, 200, 100]) ! i)
          - real_of_int ([10, 50, 200, 100] ! i)\<bar> \<le> 1 / 2 + (1 / 2) / (1 / 2)"
    by simp_all
  from this(1) this(2) [rule_format, of 1] scale rnd show ?thesis
    by simp
qed

section \<open>Properties of the resolution planner\<close>
















section \<open>Properties of the result parser\<close>

lemma those_numbers:
  "those (map number_of b) = Some coords \<Longrightarrow> b = map Num coords"
proof (induction b arbitrary: coords)
  case Nil
  then show ?case by simp
next
  case (Cons v b)
  show ?case
  proof (cases v)
    case (Num n)
    with Cons.prems obtain cs where cs: "those (map number_of b) = Some cs" "coords = n # cs"
      by (cases "those (map number_of b)") simp_all
    from Cons.IH [OF cs(1)] cs(2) Num show ?thesis by simp
  next
    case NotNum
    with Cons.prems show ?thesis by simp
  qed
qed

lemma validate_record_Some:
  assumes "validate_record r = Some e"
  shows "\<exists>c coords. raw_category r = Some c \<and> c \<in> set fixed_categories \<and>
           raw_bbox r = Some (map Num coords) \<and> length coords = 4 \<and>
           e = \<lparr>category = Some c, bbox = Some coords, etext = raw_text r,
                 reading_order = None, page_number = None\<rparr>"
proof -
  from assms obtain c b coords where c: "raw_category r = Some c" "c \<in> set fixed_categories"
    and b: "raw_bbox r = Some b" "length b = 4" "those (map number_of b) = Some coords"
    and e: "e = \<lparr>category = Some c, bbox = Some coords, etext = raw_text r,
                 reading_order = None, page_number = None\<rparr>"
    by (auto simp: validate_record_def split: option.splits if_splits)
  from those_numbers [OF b(3)] have "b = map Num coords" .
  moreover from this b(2) have "length coords = 4" by simp
  ultimately show ?thesis using c b(1) e by blast
qed

lemma those_map_Num: "those (map (number_of \<circ> Num) coords) = Some coords"
  by (induction coords) simp_all

lemma validate_record_valid:
  assumes "raw_category r = Some c" "c \<in> set fixed_categories"
    "raw_bbox r = Some (map Num coords)" "length coords = 4"
  shows "validate_record r = Some \<lparr>category = Some c, bbox = Some coords, etext = raw_text r,
                 reading_order = None, page_number = None\<rparr>"
  using assms by (simp add: validate_record_def those_map_Num)

lemma retained_valid:
  assumes "e \<in> set (List.map_filter validate_record records)"
  shows "\<exists>c b. category e = Some c \<and> c \<in> set fixed_categories \<and> bbox e = Some b \<and> length b = 4"
proof -
  from assms obtain r where "r \<in> set records" "validate_record r = Some e"
    by (auto simp: map_filter_def split: option.splits)
  from validate_record_Some [OF this(2)] show ?thesis by auto
qed

text \<open>
  Claim C4. For every raw text the result parser gives either a succeeded page in which
  every retained element carries a category of the fixed set and a bbox of four numbers,
  or a filtered page that holds the raw text itself. Whenever the text decodes, at once or
  after the repair pass, the page succeeds with exactly the valid records of the response,
  in order, however many other records are malformed; the page is filtered only when both
  decodes fail. A record is retained exactly when it carries a category of the fixed set
  and a bbox of four numbers.
\<close>

theorem parser_keeps_valid_records_or_raw_text:
  "(case result_parser decode repair raw of
      Succeeded es \<Rightarrow>
        (\<forall>e \<in> set es. \<exists>c b. category e = Some c \<and> c \<in> set fixed_categories \<and>
            bbox e = Some b \<and> length b = 4)
    | Filtered t r \<Rightarrow> t = raw \<and> r = MalformedResponse) \<and>
   (\<forall>records. decode raw = Some records \<or> (decode raw = None \<and> decode (repair raw) = Some records)
      \<longrightarrow> result_parser decode repair raw = Succeeded (List.map_filter validate_record records)) \<and>
   (decode raw = None \<and> decode (repair raw) = None \<longrightarrow>
      result_parser decode repair raw = Filtered raw MalformedResponse) \<and>
   (\<forall>records e. e \<in> set (List.map_filter validate_record records) \<longleftrightarrow>
      (\<exists>r \<in> set records. \<exists>c coords.
         raw_category r = Some c \<and> c \<in> set fixed_categories \<and>
         raw_bbox r = Some (map Num coords) \<and> length coords = 4 \<and>
         e = \<lparr>category = Some c, bbox = Some coords, etext = raw_text r,
               reading_order = None, page_number = None\<rparr>))"
proof -
  have shape: "(case result_parser decode repair raw of
      Succeeded es \<Rightarrow>
        (\<forall>e \<in> set es. \<exists>c b. category e = Some c \<and> c \<in> set fixed_categories \<and>
            bbox e = Some b \<and> length b = 4)
    | Filtered t r \<Rightarrow> t = raw \<and> r = MalformedResponse)"
    by (auto simp: result_parser_def dest: retained_valid split: option.splits)
  have ok: "result_parser decode repair raw = Succeeded (List.map_filter validate_record records)"
    if "decode raw = Some records \<or> (decode raw = None \<and> decode (repair raw) = Some records)"
    for records
    using that by (auto simp: result_parser_def)
  have bad: "result_parser decode repair raw = Filtered raw MalformedResponse"
    if "decode raw = None \<and> decode (repair raw) = None"
    using that by (simp add: result_parser_def)
  have exactly: "e \<in> set (List.map_filter validate_record records) \<longleftrightarrow>
      (\<exists>r \<in> set records. \<exists>c coords.
         raw_category r = Some c \<and> c \<in> set fixed_categories \<and>
         raw_bbox r = Some (map Num coords) \<and> length coords = 4 \<and>
         e = \<lparr>category = Some c, bbox = Some coords, etext = raw_text r,
               reading_order = None, page_number = None\<rparr>)" for records e
  proof
    assume "e \<in> set (List.map_filter validate_record records)"
    then obtain r where r: "r \<in> set records" "validate_record r = Some e"
      by (auto simp: map_filter_def split: option.splits)
    from validate_record_Some [OF r(2)] r(1) show "\<exists>r \<in> set records. \<exists>c coords.
         raw_category r = Some c \<and> c \<in> set fixed_categories \<and>
         raw_bbox r = Some (map Num coords) \<and> length coords = 4 \<and>
         e = \<lparr>category = Some c, bbox = Some coords, etext = raw_text r,
               reading_order = None, page_number = None\<rparr>"
      by blast
  next
    assume "\<exists>r \<in> set records. \<exists>c coords.
         raw_category r = Some c \<and> c \<in> set fixed_categories \<and>
         raw_bbox r = Some (map Num coords) \<and> length coords = 4 \<and>
         e = \<lparr>category = Some c, bbox = Some coords, etext = raw_text r,
               reading_order = None, page_number = None\<rparr>"
    then obtain r c coords where r: "r \<in> set records" "raw_category r = Some c"
      "c \<in> set fixed_categories" "raw_bbox r = Some (map Num coords)" "length coords = 4"
      "e = \<lparr>category = Some c, bbox = Some coords, etext = raw_text r,
               reading_order = None, page_number = None\<rparr>"
      by blast
    from validate_record_valid [OF r(2-5)] r(6) have "validate_record r = Some e" by simp
    with r(1) show "e \<in> set (List.map_filter validate_record records)"
      by (force simp: map_filter_def)
  qed
  from shape ok bad exactly show ?thesis
    by blast
qed

theorem parser_keeps_valid_records_or_raw_text_witness:
  "example_decode ''prose json'' = None \<and>
   example_decode (example_repair ''prose json'') = Some example_records \<and>
   result_parser example_decode example_repair ''prose json'' =
     Succeeded [\<lparr>category = Some ''Title'', bbox = Some [10, 10, 200, 40],
                 etext = Some ''Report'', reading_order = None, page_number = None\<rparr>] \<and>
   result_parser example_decode example_repair ''prose'' = Filtered ''prose'' MalformedResponse"
proof -
  have d1: "example_decode ''prose json'' = None"
    and d2: "example_decode (example_repair ''prose json'') = Some example_records"
    by (simp_all add: example_decode_def example_repair_def)
  have d3: "example_decode ''prose'' = None \<and> example_decode (example_repair ''prose'') = None"
    by (simp add: example_decode_def example_repair_def)
  have valid: "List.map_filter validate_record example_records =
      [\<lparr>category = Some ''Title'', bbox = Some [10, 10, 200, 40],
        etext = Some ''Report'', reading_order = None, page_number = None\<rparr>]"
    by (simp add: example_records_def validate_record_def fixed_categories_def)
  from parser_keeps_valid_records_or_raw_text [where decode = example_decode and repair = example_repair
      and raw = "''prose json''"]
    d1 d2
  have "result_parser example_decode example_repair ''prose json'' =
      Succeeded (List.map_filter validate_record example_records)"
    by blast
  moreover
  from parser_keeps_valid_records_or_raw_text [where decode = example_decode and repair = example_repair
      and raw = "''prose''"] d3
  have "result_parser example_decode example_repair ''prose'' = Filtered ''prose'' MalformedResponse"
    by blast
  ultimately show ?thesis
    using d1 d2 valid by simp
qed

section \<open>Properties of the dispatcher\<close>

lemma length_fold_write_slot:
  "length (fold (write_slot task pages) completion slots) = length slots"
  by (induction completion arbitrary: slots) (simp_all add: write_slot_def)

lemma write_slot_nth:
  assumes "length slots = length pages" and "i < length pages"
  shows "write_slot task pages j slots ! i =
           (if j = i then Some (task i (pages ! i)) else slots ! i)"
  using assms by (simp add: write_slot_def)

lemma nth_fold_write_slot:
  assumes "length slots = length pages" and "i < length pages"
  shows "fold (write_slot task pages) completion slots ! i =
           (if i \<in> set completion then Some (task i (pages ! i)) else slots ! i)"
  using assms
proof (induction completion arbitrary: slots rule: rev_induct)
  case Nil
  show ?case by simp
next
  case (snoc j js)
  let ?before = "fold (write_slot task pages) js slots"
  have len: "length ?before = length pages"
    using snoc.prems(1) by (simp add: length_fold_write_slot)
  have "fold (write_slot task pages) (js @ [j]) slots ! i = write_slot task pages j ?before ! i"
    by simp
  also have "\<dots> = (if j = i then Some (task i (pages ! i)) else ?before ! i)"
    by (rule write_slot_nth [OF len snoc.prems(2)])
  also have "\<dots> = (if i \<in> set (js @ [j]) then Some (task i (pages ! i)) else slots ! i)"
    using snoc.IH [OF snoc.prems] by auto
  finally show ?case .
qed

lemma those_map_Some: "those (map (\<lambda>x. Some (f x)) xs) = Some (map f xs)"
  by (induction xs) simp_all

lemma slots_filled:
  assumes "{0..<length pages} \<subseteq> set completion"
  shows "fold (write_slot task pages) completion (replicate (length pages) None) =
           map (\<lambda>i. Some (task i (pages ! i))) [0..<length pages]"
proof (rule nth_equalityI)
  show "length (fold (write_slot task pages) completion (replicate (length pages) None)) =
      length (map (\<lambda>i. Some (task i (pages ! i))) [0..<length pages])"
    by (simp add: length_fold_write_slot)
next
  fix i
  assume "i < length (fold (write_slot task pages) completion (replicate (length pages) None))"
  then have i: "i < length pages"
    by (simp add: length_fold_write_slot)
  with assms have "i \<in> set completion" by auto
  with i show "fold (write_slot task pages) completion (replicate (length pages) None) ! i =
      map (\<lambda>i. Some (task i (pages ! i))) [0..<length pages] ! i"
    by (simp add: nth_fold_write_slot)
qed

lemma dispatch_eq:
  assumes "{0..<length pages} \<subseteq> set completion"
  shows "dispatch backend parse retries completion pages =
           Some (map (\<lambda>i. dispatch_page backend parse retries i (pages ! i)) [0..<length pages])"
  unfolding dispatch_def slots_filled [OF assms] by (rule those_map_Some)

lemma retries_exhausted:
  assumes "\<forall>a. k \<le> a \<and> a \<le> k + budget \<longrightarrow> (\<forall>t. call a \<noteq> Reply t)"
  shows "\<forall>t. call_with_retries call k budget \<noteq> Reply t"
  using assms
proof (induction budget arbitrary: k)
  case 0
  then show ?case by simp
next
  case (Suc budget)
  from Suc.prems have now: "\<forall>t. call k \<noteq> Reply t"
    by simp
  from Suc.prems have "\<forall>a. Suc k \<le> a \<and> a \<le> Suc k + budget \<longrightarrow> (\<forall>t. call a \<noteq> Reply t)"
    by simp
  from Suc.IH [OF this] now show ?case
    by (cases "call k") simp_all
qed

lemma failed_page_filtered:
  assumes "\<forall>a \<le> retries. \<forall>t. backend i page a \<noteq> Reply t"
  shows "\<not> is_succeeded (dispatch_page backend parse retries i page)"
proof -
  from assms have "\<forall>a. 0 \<le> a \<and> a \<le> 0 + retries \<longrightarrow> (\<forall>t. backend i page a \<noteq> Reply t)"
    by simp
  from retries_exhausted [OF this] show ?thesis
    by (cases "call_with_retries (backend i page) 0 retries") (simp_all add: dispatch_page_def)
qed

lemma all_but_one:
  assumes k: "k < length xs" and not: "\<not> P (xs ! k)"
    and rest: "\<forall>j < length xs. j \<noteq> k \<longrightarrow> P (xs ! j)"
  shows "length (filter P xs) = length xs - 1 \<and> length (filter (\<lambda>x. \<not> P x) xs) = 1"
proof -
  have front: "\<forall>x \<in> set (take k xs). P x"
  proof
    fix x
    assume "x \<in> set (take k xs)"
    then obtain j where "j < length (take k xs)" "take k xs ! j = x"
      by (auto simp: in_set_conv_nth)
    with k rest show "P x" by auto
  qed
  have rear: "\<forall>x \<in> set (drop (Suc k) xs). P x"
  proof
    fix x
    assume "x \<in> set (drop (Suc k) xs)"
    then obtain j where j: "j < length (drop (Suc k) xs)" "drop (Suc k) xs ! j = x"
      by (auto simp: in_set_conv_nth)
    then have "Suc k + j < length xs" "xs ! (Suc k + j) = x"
      by simp_all
    with rest show "P x" by auto
  qed
  from k have split: "xs = take k xs @ xs ! k # drop (Suc k) xs"
    by (rule id_take_nth_drop)
  have "filter P xs = filter P (take k xs) @ filter P (xs ! k # drop (Suc k) xs)"
    by (subst split) simp
  also from front rear not have "\<dots> = take k xs @ drop (Suc k) xs"
    by simp
  finally have "length (filter P xs) = length xs - 1"
    using k by simp
  moreover have "filter (\<lambda>x. \<not> P x) xs =
      filter (\<lambda>x. \<not> P x) (take k xs) @ filter (\<lambda>x. \<not> P x) (xs ! k # drop (Suc k) xs)"
    by (subst split) simp
  with front rear not have "filter (\<lambda>x. \<not> P x) xs = [xs ! k]"
    by simp
  ultimately show ?thesis by simp
qed


text \<open>
  Claim C1. Whatever the order in which the tasks complete, as long as the task of every
  page completes, the dispatcher returns one page result per page, and the result at
  position \<open>i\<close> is the result of page \<open>i\<close>: the document result has the length and the order
  of the input pages. If one page fails on every attempt of its retry budget while the
  task of every other page succeeds, the result at that page's index is filtered, every
  other result is succeeded, and so exactly one entry is filtered and \<open>N - 1\<close> are
  succeeded.
\<close>

theorem dispatch_keeps_page_order:
  assumes "{0..<length pages} \<subseteq> set completion"
  shows "\<exists>results. dispatch backend parse retries completion pages = Some results \<and>
    length results = length pages \<and>
    (\<forall>i < length pages. results ! i = dispatch_page backend parse retries i (pages ! i)) \<and>
    (\<forall>k < length pages.
       (\<forall>a \<le> retries. \<forall>t. backend k (pages ! k) a \<noteq> Reply t) \<and>
       (\<forall>j < length pages. j \<noteq> k \<longrightarrow>
          is_succeeded (dispatch_page backend parse retries j (pages ! j))) \<longrightarrow>
       \<not> is_succeeded (results ! k) \<and>
       (\<forall>j < length pages. j \<noteq> k \<longrightarrow> is_succeeded (results ! j)) \<and>
       length (filter (\<lambda>r. \<not> is_succeeded r) results) = 1 \<and>
       length (filter is_succeeded results) = length pages - 1)"
proof -
  define results where
    "results = map (\<lambda>i. dispatch_page backend parse retries i (pages ! i)) [0..<length pages]"
  have res: "dispatch backend parse retries completion pages = Some results"
    unfolding results_def by (rule dispatch_eq [OF assms])
  have len: "length results = length pages"
    by (simp add: results_def)
  have nth: "results ! i = dispatch_page backend parse retries i (pages ! i)"
    if "i < length pages" for i
    using that by (simp add: results_def)
  have one: "\<not> is_succeeded (results ! k) \<and>
       (\<forall>j < length pages. j \<noteq> k \<longrightarrow> is_succeeded (results ! j)) \<and>
       length (filter (\<lambda>r. \<not> is_succeeded r) results) = 1 \<and>
       length (filter is_succeeded results) = length pages - 1"
    if k: "k < length pages"
      and fails: "\<forall>a \<le> retries. \<forall>t. backend k (pages ! k) a \<noteq> Reply t"
      and others: "\<forall>j < length pages. j \<noteq> k \<longrightarrow>
          is_succeeded (dispatch_page backend parse retries j (pages ! j))" for k
  proof -
    have "\<not> is_succeeded (dispatch_page backend parse retries k (pages ! k))"
      using fails by (rule failed_page_filtered)
    with nth [OF k] have bad: "\<not> is_succeeded (results ! k)"
      by simp
    from others nth have good: "\<forall>j < length results. j \<noteq> k \<longrightarrow> is_succeeded (results ! j)"
      by (simp add: len)
    from k have "k < length results" by (simp add: len)
    from all_but_one [OF this bad good] bad good show ?thesis
      by (simp add: len)
  qed
  from res len nth one show ?thesis
    by blast
qed

theorem dispatch_keeps_page_order_witness:
  "{0..<length [''prose json'', ''x'', ''json'']} \<subseteq> set [2, 0, 1 :: nat] \<and>
   (\<exists>results.
      dispatch example_backend (result_parser example_decode example_repair) 2 [2, 0, 1]
        [''prose json'', ''x'', ''json''] = Some results \<and>
      length results = 3 \<and>
      results ! 1 = Filtered ''timeout'' BackendTimeout \<and>
      is_succeeded (results ! 0) \<and> is_succeeded (results ! 2) \<and>
      length (filter is_succeeded results) = 2)"
proof -
  let ?pages = "[''prose json'', ''x'', ''json'']"
  let ?parse = "result_parser example_decode example_repair"
  have fin: "{0..<length ?pages} \<subseteq> set [2, 0, 1 :: nat]"
    by auto
  have p0: "is_succeeded (dispatch_page example_backend ?parse 2 0 (?pages ! 0))"
    by (simp add: dispatch_page_def example_backend_def result_parser_def example_decode_def
        example_repair_def numeral_2_eq_2)
  have p2: "is_succeeded (dispatch_page example_backend ?parse 2 2 (?pages ! 2))"
    by (simp add: dispatch_page_def example_backend_def result_parser_def example_decode_def
        example_repair_def numeral_2_eq_2)
  have p1: "dispatch_page example_backend ?parse 2 1 (?pages ! 1) =
      Filtered ''timeout'' BackendTimeout"
    by (simp add: dispatch_page_def example_backend_def numeral_2_eq_2)
  have fails: "\<forall>a \<le> 2. \<forall>t. example_backend 1 (?pages ! 1) a \<noteq> Reply t"
    by (simp add: example_backend_def)
  have others: "\<forall>j < length ?pages. j \<noteq> 1 \<longrightarrow>
      is_succeeded (dispatch_page example_backend ?parse 2 j (?pages ! j))"
  proof (intro allI impI)
    fix j :: nat
    assume "j < length ?pages" "j \<noteq> 1"
    then have "j = 0 \<or> j = 2" by auto
    with p0 p2 show "is_succeeded (dispatch_page example_backend ?parse 2 j (?pages ! j))"
      by blast
  qed
  from dispatch_keeps_page_order [OF fin, of example_backend ?parse 2] obtain results where
    r: "dispatch example_backend ?parse 2 [2, 0, 1] ?pages = Some results"
      "length results = length ?pages"
      "\<forall>i < length ?pages. results ! i = dispatch_page example_backend ?parse 2 i (?pages ! i)"
      "\<forall>k < length ?pages.
         (\<forall>a \<le> 2. \<forall>t. example_backend k (?pages ! k) a \<noteq> Reply t) \<and>
         (\<forall>j < length ?pages. j \<noteq> k \<longrightarrow>
            is_succeeded (dispatch_page example_backend ?parse 2 j (?pages ! j))) \<longrightarrow>
         \<not> is_succeeded (results ! k) \<and>
         (\<forall>j < length ?pages. j \<noteq> k \<longrightarrow> is_succeeded (results ! j)) \<and>
         length (filter (\<lambda>r. \<not> is_succeeded r) results) = 1 \<and>
         length (filter is_succeeded results) = length ?pages - 1"
    by blast
  have k: "1 < length ?pages" by simp
  from r(4) [rule_format, OF k] fails others
  have cnt: "length (filter is_succeeded results) = length ?pages - 1" by blast
  from r(3) [rule_format, of 0] r(3) [rule_format, of 1] r(3) [rule_format, of 2] p0 p1 p2
  have "is_succeeded (results ! 0)" "results ! 1 = Filtered ''timeout'' BackendTimeout"
    "is_succeeded (results ! 2)"
    by simp_all
  with r(1,2) cnt fin show ?thesis
    by (intro conjI exI [of _ results]) simp_all
qed

end
